theory Spec2Isabelle
  imports Complex_Main "HOL-Library.Multiset"
begin

section \<open>The notebook \<open>Parallel_Example.ipynb\<close>: data model\<close>

text \<open>
  The notebook defines one function, \<open>calc_column_mean\<close>, builds one matrix and computes
  the list of its column means three times: with a list comprehension, and with joblib's
  \<open>Parallel\<close> on 2 and on 10 workers. Each run prints its elapsed time.

  Conventions of the embedding.
  \<^item> A float64 is an \<open>npfloat\<close>: a finite value \<open>Num x\<close>, an infinity or \<open>nan\<close>. The
    arithmetic is IEEE 754 binary64 with round-to-nearest-even: every operation rounds
    its exact result with \<open>rnd\<close>, which overflows to an infinity. The two zeros are one
    value.
  \<^item> A numpy array is a descriptor (address of the first element, shape) over a buffer
    of float64 elements; the buffers live in the memory \<open>mem\<close> of the world, addressed by
    element. \<open>data[:, column]\<close> is a view: a descriptor over the same buffer, no copy.
  \<^item> Effects are explicit: a function that sleeps, prints or reads memory takes the
    world and returns it. An exception is \<open>Inl\<close> of a result.
  \<^item> The world keeps in \<open>calls\<close> the history of the calls of \<open>calc_column_mean\<close> its
    process has made, each with the clock at its entry. It is an observation of the run:
    the code neither reads nor prints it.
\<close>

datatype error = IndexError | OverflowError | ValueError | TerminatedWorkerError

datatype npfloat = Num real | PInf | NInf | NaN

text \<open>A C-contiguous two-dimensional array of float64, as \<open>np.random.rand(100, 1000)\<close> returns.\<close>

record ndarray =
  ptr :: nat
  shape0 :: nat
  shape1 :: nat

text \<open>A one-dimensional strided view.\<close>

record view1 =
  vptr :: nat
  vstride :: nat
  vcount :: nat

record world =
  now :: real
  stdout :: string
  mem :: "nat \<Rightarrow> npfloat"
  calls :: "(int \<times> real) list"

subsection \<open>Library operations the notebook calls\<close>

text \<open>\<open>time.sleep(secs)\<close> and \<open>time.time()\<close>: the clock advances by the time slept.\<close>

definition time_sleep :: "real \<Rightarrow> world \<Rightarrow> world" where
  "time_sleep secs w = w\<lparr>now := now w + secs\<rparr>"

definition time_time :: "world \<Rightarrow> real" where
  "time_time w = now w"

text \<open>\<open>print(s)\<close> writes the string and a newline to standard output.\<close>

definition print :: "string \<Rightarrow> world \<Rightarrow> world" where
  "print s w = w\<lparr>stdout := stdout w @ s @ [CHR 0x0A]\<rparr>"

text \<open>
  \<open>data[i, j]\<close> for \<open>i\<close>, \<open>j\<close> inside the shape: the element at row-major position
  \<open>i * shape1 + j\<close> of the buffer.
\<close>

definition getitem2 :: "world \<Rightarrow> ndarray \<Rightarrow> nat \<Rightarrow> nat \<Rightarrow> npfloat" where
  "getitem2 w data i j = mem w (ptr data + i * shape1 data + j)"

text \<open>
  \<open>data[:, column]\<close> for a Python integer \<open>column\<close>. An index inside
  \<open>[-shape1, shape1)\<close> gives the view of its column, \<open>shape1\<close> being added to a negative
  index. An index outside raises: OverflowError when it is in \<open>[2^63, 2^64)\<close>, for
  numpy converts the index to a signed 64-bit integer, and IndexError otherwise. (A
  dimension of an array is below \<open>2^63\<close>, so an index that fails the conversion is
  outside the bounds.)
\<close>

definition getitem_col :: "ndarray \<Rightarrow> int \<Rightarrow> error + view1" where
  "getitem_col data column =
     (let n = int (shape1 data) in
      if - n \<le> column \<and> column < n then
        let j = nat (if column < 0 then column + n else column)
        in Inr \<lparr>vptr = ptr data + j, vstride = shape1 data, vcount = shape0 data\<rparr>
      else if 2 ^ 63 \<le> column \<and> column < 2 ^ 64 then Inl OverflowError
      else Inl IndexError)"

definition view_values :: "world \<Rightarrow> view1 \<Rightarrow> npfloat list" where
  "view_values w v = map (\<lambda>i. mem w (vptr v + i * vstride v)) [0..<vcount v]"

text \<open>\<open>range(n)\<close>.\<close>

definition range_py :: "nat \<Rightarrow> int list" where
  "range_py n = map int [0..<n]"

text \<open>
  A list comprehension \<open>[f(x) for x in xs]\<close> over a function with effects: the calls are
  made one after the other, each in the state the previous one left, and an exception
  ends the comprehension with no list.
\<close>

fun comprehension ::
  "('i \<Rightarrow> 's \<Rightarrow> (error + 'a) \<times> 's) \<Rightarrow> 'i list \<Rightarrow> 's \<Rightarrow> (error + 'a list) \<times> 's" where
  "comprehension f [] s = (Inr [], s)"
| "comprehension f (x # xs) s =
     (case f x s of
        (Inl e, s1) \<Rightarrow> (Inl e, s1)
      | (Inr v, s1) \<Rightarrow>
          (case comprehension f xs s1 of
             (Inl e, s2) \<Rightarrow> (Inl e, s2)
           | (Inr vs, s2) \<Rightarrow> (Inr (v # vs), s2)))"

text \<open>
  \<open>'{:.2f}'.format(x)\<close>: the decimal numeral of \<open>x\<close> rounded to hundredths, a tie going
  to the even neighbour.
\<close>

definition digit :: "nat \<Rightarrow> char" where
  "digit d = ''0123456789'' ! (d mod 10)"

fun digits :: "nat \<Rightarrow> string" where
  "digits n = (if n < 10 then [digit n] else digits (n div 10) @ [digit (n mod 10)])"

declare digits.simps [simp del]

definition round_half_even :: "real \<Rightarrow> int" where
  "round_half_even x =
     (let f = \<lfloor>x\<rfloor>; d = x - of_int f
      in if d < 1 / 2 then f else if 1 / 2 < d then f + 1 else if even f then f else f + 1)"

definition format_2f :: "real \<Rightarrow> string" where
  "format_2f x =
     (let n = nat (round_half_even (\<bar>x\<bar> * 100))
      in (if x < 0 then ''-'' else '''') @ digits (n div 100) @ ''.'' @
         [digit (n div 10), digit n])"

subsection \<open>float64 arithmetic\<close>

text \<open>
  The binade of a magnitude \<open>a\<close>: the exponent \<open>e\<close> with \<open>2^e \<le> a < 2^(e+1)\<close>, found by
  halving or doubling, and kept inside the exponent range of binary64: no lower than
  \<open>-1022\<close>, where the subnormal numbers begin, and \<open>1024\<close> for every magnitude from
  \<open>2^1024\<close> on.
\<close>

fun halvings :: "nat \<Rightarrow> real \<Rightarrow> int" where
  "halvings 0 a = 0"
| "halvings (Suc n) a = (if 2 \<le> a then halvings n (a / 2) + 1 else 0)"

fun doublings :: "nat \<Rightarrow> real \<Rightarrow> int" where
  "doublings 0 a = 0"
| "doublings (Suc n) a = (if a < 1 then doublings n (2 * a) + 1 else 0)"

definition binade :: "real \<Rightarrow> int" where
  "binade a = (if 1 \<le> a then halvings 1024 a else - doublings 1022 a)"

text \<open>The spacing of the float64 numbers around \<open>x\<close>: 52 fraction bits below its binade.\<close>

definition ulp :: "real \<Rightarrow> real" where
  "ulp x = power_int 2 (binade \<bar>x\<bar> - 52)"

text \<open>
  Rounding a real to float64: the nearest multiple of the spacing, a tie going to the
  even multiple; a result of magnitude \<open>2^1024\<close> is an overflow.
\<close>

definition rnd :: "real \<Rightarrow> npfloat" where
  "rnd x =
     (let r = of_int (round_half_even (x / ulp x)) * ulp x
      in if 2 ^ 1024 \<le> \<bar>r\<bar> then (if 0 < x then PInf else NInf) else Num r)"

text \<open>float64 addition.\<close>

fun fadd :: "npfloat \<Rightarrow> npfloat \<Rightarrow> npfloat" where
  "fadd (Num a) (Num b) = rnd (a + b)"
| "fadd NaN y = NaN"
| "fadd x NaN = NaN"
| "fadd PInf NInf = NaN"
| "fadd NInf PInf = NaN"
| "fadd PInf y = PInf"
| "fadd x PInf = PInf"
| "fadd NInf y = NInf"
| "fadd x NInf = NInf"

text \<open>
  float64 division of a sum by an item count, \<open>ret / rcount\<close>: the count is converted to
  float64 and the quotient rounded. A division by zero raises nothing: it gives \<open>nan\<close>
  for \<open>0 / 0\<close> and an infinity otherwise.
\<close>

definition true_divide :: "npfloat \<Rightarrow> nat \<Rightarrow> npfloat" where
  "true_divide x n =
     (case rnd (real n) of
        Num d \<Rightarrow>
          (case x of
             Num s \<Rightarrow>
               if d = 0 then (if s = 0 then NaN else if 0 < s then PInf else NInf)
               else rnd (s / d)
           | _ \<Rightarrow> x)
      | _ \<Rightarrow> (case x of Num s \<Rightarrow> Num 0 | _ \<Rightarrow> NaN))"

text \<open>
  numpy's sum of the items of a view adds every item once, from zero, in float64. The
  order of the additions belongs to the numpy build (a loop for a few items, blocks and
  pairs for many) and the notebook does not fix it. It is a parameter here: a \<open>plan\<close>
  for \<open>n\<close> items is a term of additions over the item positions and zeros, and
  \<open>valid_plan\<close> says that it adds each of the \<open>n\<close> items exactly once. \<open>sequential\<close> is
  the loop that adds the items one after the other.
\<close>

datatype plan = Zero | Item nat | Plus plan plan

type_synonym summation = "nat \<Rightarrow> plan"

fun reduce :: "plan \<Rightarrow> npfloat list \<Rightarrow> npfloat" where
  "reduce Zero xs = Num 0"
| "reduce (Item i) xs = (if i < length xs then xs ! i else Num 0)"
| "reduce (Plus l r) xs = fadd (reduce l xs) (reduce r xs)"

fun items :: "plan \<Rightarrow> nat list" where
  "items Zero = []"
| "items (Item i) = [i]"
| "items (Plus l r) = items l @ items r"

fun additions :: "plan \<Rightarrow> nat" where
  "additions Zero = 0"
| "additions (Item i) = 0"
| "additions (Plus l r) = additions l + additions r + 1"

definition valid_plan :: "plan \<Rightarrow> nat \<Rightarrow> bool" where
  "valid_plan t n = (mset (items t) = mset [0..<n])"

definition sequential :: summation where
  "sequential n = foldl (\<lambda>t i. Plus t (Item i)) Zero [0..<n]"

text \<open>\<open>v.mean()\<close>: the float64 sum of the items of the view, divided by their count.\<close>

definition mean :: "summation \<Rightarrow> view1 \<Rightarrow> world \<Rightarrow> npfloat" where
  "mean order v w = true_divide (reduce (order (vcount v)) (view_values w v)) (vcount v)"

subsection \<open>joblib's \<open>Parallel\<close> and \<open>delayed\<close>\<close>

text \<open>
  Modelled from the spec: joblib's \<open>Parallel\<close> and \<open>delayed\<close> are an external library,
  not code of the notebook. The spec describes the facility as a worker pool that takes
  a callable, a sequence of argument tuples and a worker count, where one coordinator
  dispatches independent work items to a fixed-size pool of workers that share no
  mutable state, the completion order is unspecified, the results are collected into a
  pre-sized slot array keyed by index, and any worker failure aborts the computation
  with no partial result.

  What the library and the operating system decide is the \<open>schedule\<close>: which worker runs
  each task, and the order in which the results arrive at the coordinator. Each worker
  is a process of its own: it starts from a copy of the coordinator's world, runs its
  tasks one after the other, and its writes stay in its copy. The coordinator's clock
  ends at the latest clock of a worker. A slot no result arrived for is a worker that
  was lost. The worker count is a natural number: the notebook passes 2 and 10, and
  joblib rejects \<open>n_jobs = 0\<close> with a ValueError.
\<close>

record schedule =
  worker_of :: "nat \<Rightarrow> nat"
  arrival :: "nat list"

definition valid_schedule :: "schedule \<Rightarrow> nat \<Rightarrow> bool" where
  "valid_schedule sched n =
     (list_all (\<lambda>i. i < n) (arrival sched) \<and>
      list_all (\<lambda>i. i \<in> set (arrival sched)) [0..<n])"

type_synonym 'a task = "world \<Rightarrow> (error + 'a) \<times> world"

definition delayed :: "('x \<Rightarrow> 'y \<Rightarrow> 'a task) \<Rightarrow> 'x \<Rightarrow> 'y \<Rightarrow> 'a task" where
  "delayed f a b = (\<lambda>w. f a b w)"

fun run_queue :: "(nat \<times> 'a task) list \<Rightarrow> world \<Rightarrow> (nat \<times> (error + 'a)) list \<times> world" where
  "run_queue [] w = ([], w)"
| "run_queue ((i, t) # q) w =
     (case t w of (r, w1) \<Rightarrow>
        (case run_queue q w1 of (rs, w2) \<Rightarrow> ((i, r) # rs, w2)))"

fun collect :: "(error + 'a) option list \<Rightarrow> error + 'a list" where
  "collect [] = Inr []"
| "collect (None # ss) = Inl TerminatedWorkerError"
| "collect (Some (Inl e) # ss) = Inl e"
| "collect (Some (Inr v) # ss) =
     (case collect ss of Inl e \<Rightarrow> Inl e | Inr vs \<Rightarrow> Inr (v # vs))"

definition Parallel :: "nat \<Rightarrow> schedule \<Rightarrow> 'a task list \<Rightarrow> world \<Rightarrow> (error + 'a list) \<times> world" where
  "Parallel n_jobs sched tasks w =
     (if n_jobs = 0 then (Inl ValueError, w)
      else
        let jobs = enumerate 0 tasks;
            runs = map (\<lambda>k. run_queue (filter (\<lambda>(i, t). worker_of sched i mod n_jobs = k) jobs) w)
                     [0..<n_jobs];
            finished = concat (map fst runs);
            slots = fold (\<lambda>i s. s[i := map_of finished i]) (arrival sched)
                      (replicate (length tasks) None)
        in (collect slots, w\<lparr>now := fold max (map (\<lambda>r. now (snd r)) runs) (now w)\<rparr>))"

section \<open>The notebook's code\<close>

text \<open>
  \<^verbatim>\<open>
  def calc_column_mean(data, column):
      time.sleep(.01)
      return data[:,column].mean()
  \<close>
  The call is entered in the history of the process, with the clock at its entry.
\<close>

definition calc_column_mean ::
  "summation \<Rightarrow> ndarray \<Rightarrow> int \<Rightarrow> world \<Rightarrow> (error + npfloat) \<times> world" where
  "calc_column_mean order data column w =
     (let w1 = time_sleep (1 / 100) (w\<lparr>calls := calls w @ [(column, now w)]\<rparr>) in
      case getitem_col data column of
        Inl e \<Rightarrow> (Inl e, w1)
      | Inr v \<Rightarrow> (Inr (mean order v w1), w1))"

text \<open>\<^verbatim>\<open>column_means = [calc_column_mean(data, column) for column in range(data.shape[1])]\<close>\<close>

definition column_means_serial ::
  "summation \<Rightarrow> ndarray \<Rightarrow> world \<Rightarrow> (error + npfloat list) \<times> world" where
  "column_means_serial order data w =
     comprehension (\<lambda>column. calc_column_mean order data column) (range_py (shape1 data)) w"

text \<open>
  \<^verbatim>\<open>column_means = Parallel(n_jobs=W)(delayed(calc_column_mean)(data, col) for col in range(data.shape[1]))\<close>
  with \<open>W = 2\<close> in the second run and \<open>W = 10\<close> in the third.
\<close>

definition column_means_parallel ::
  "nat \<Rightarrow> schedule \<Rightarrow> summation \<Rightarrow> ndarray \<Rightarrow> world \<Rightarrow> (error + npfloat list) \<times> world" where
  "column_means_parallel n_jobs sched order data w =
     Parallel n_jobs sched
       (map (\<lambda>col. delayed (calc_column_mean order) data col) (range_py (shape1 data))) w"

text \<open>
  The two lines each cell ends with, as the source has them:
  \<^verbatim>\<open>
  print('1 Processor')
  print('Elapsed computation tiem: {:.2f} s'.format(stop - start))
  \<close>
\<close>

definition report :: "string \<Rightarrow> real \<Rightarrow> real \<Rightarrow> world \<Rightarrow> world" where
  "report label start stop w =
     print (''Elapsed computation tiem: '' @ format_2f (stop - start) @ '' s'') (print label w)"

text \<open>The first run: \<open>start = time.time()\<close>, the comprehension, \<open>stop = time.time()\<close>, the two prints.\<close>

definition cell_serial :: "summation \<Rightarrow> ndarray \<Rightarrow> world \<Rightarrow> (error + npfloat list) \<times> world" where
  "cell_serial order data w =
     (let start = time_time w in
      case column_means_serial order data w of
        (Inl e, w1) \<Rightarrow> (Inl e, w1)
      | (Inr column_means, w1) \<Rightarrow>
          let stop = time_time w1
          in (Inr column_means, report ''1 Processor'' start stop w1))"

text \<open>The second run: \<open>n_jobs=2\<close>, then \<open>print('2 Processors')\<close>.\<close>

definition cell_parallel_2 ::
  "schedule \<Rightarrow> summation \<Rightarrow> ndarray \<Rightarrow> world \<Rightarrow> (error + npfloat list) \<times> world" where
  "cell_parallel_2 sched order data w =
     (let start = time_time w in
      case column_means_parallel 2 sched order data w of
        (Inl e, w1) \<Rightarrow> (Inl e, w1)
      | (Inr column_means, w1) \<Rightarrow>
          let stop = time_time w1
          in (Inr column_means, report ''2 Processors'' start stop w1))"

text \<open>The third run: \<open>n_jobs=10\<close>, then, as the source has it, \<open>print('2 Processors')\<close>.\<close>

definition cell_parallel_10 ::
  "schedule \<Rightarrow> summation \<Rightarrow> ndarray \<Rightarrow> world \<Rightarrow> (error + npfloat list) \<times> world" where
  "cell_parallel_10 sched order data w =
     (let start = time_time w in
      case column_means_parallel 10 sched order data w of
        (Inl e, w1) \<Rightarrow> (Inl e, w1)
      | (Inr column_means, w1) \<Rightarrow>
          let stop = time_time w1
          in (Inr column_means, report ''2 Processors'' start stop w1))"

section \<open>Notions of the statements\<close>

text \<open>\<open>data[:, j].mean()\<close> for a column \<open>j\<close> inside the shape: the float64 mean of column \<open>j\<close>.\<close>

definition column_mean :: "summation \<Rightarrow> world \<Rightarrow> ndarray \<Rightarrow> nat \<Rightarrow> npfloat" where
  "column_mean order w data j =
     true_divide
       (reduce (order (shape0 data)) (map (\<lambda>i. getitem2 w data i j) [0..<shape0 data]))
       (shape0 data)"

text \<open>
  The arithmetic mean of \<open>n\<close> numbers in the spec's words: their sum divided by their
  count, in exact arithmetic.
\<close>

definition arithmetic_mean :: "(nat \<Rightarrow> real) \<Rightarrow> nat \<Rightarrow> real" where
  "arithmetic_mean a n = (\<Sum>i<n. a i) / real n"

text \<open>The largest finite float64.\<close>

definition max_float :: real where
  "max_float = (2 ^ 53 - 1) * 2 ^ 971"

subsection \<open>Concrete matrices, worlds and schedules\<close>

text \<open>A matrix of 2 rows and 3 columns at address 0: rows \<open>1, 2, 3\<close> and \<open>5, 8, 13\<close>.\<close>

definition data23 :: ndarray where
  "data23 = \<lparr>ptr = 0, shape0 = 2, shape1 = 3\<rparr>"

definition world23 :: world where
  "world23 = \<lparr>now = 5, stdout = '''',
     mem = (\<lambda>a. Num (if a = 0 then 1 else if a = 1 then 2 else if a = 2 then 3
                 else if a = 3 then 5 else if a = 4 then 8 else if a = 5 then 13 else 0)),
     calls = []\<rparr>"

definition sched23 :: schedule where
  "sched23 = \<lparr>worker_of = (\<lambda>i. i), arrival = [2, 0, 1]\<rparr>"

text \<open>
  The same matrix in a world whose memory agrees with the first on column 1 and on
  nothing else.
\<close>

definition world23b :: world where
  "world23b = \<lparr>now = 0, stdout = ''x'',
     mem = (\<lambda>a. if a = 1 then Num 2 else if a = 4 then Num 8 else NaN),
     calls = [(7, 0)]\<rparr>"

text \<open>A second schedule for three tasks; a matrix with no column and one with one column.\<close>

definition sched23b :: schedule where
  "sched23b = \<lparr>worker_of = (\<lambda>i. 0), arrival = [0, 1, 1, 2]\<rparr>"

definition data20 :: ndarray where
  "data20 = \<lparr>ptr = 0, shape0 = 2, shape1 = 0\<rparr>"

definition sched0 :: schedule where
  "sched0 = \<lparr>worker_of = (\<lambda>i. 0), arrival = []\<rparr>"

definition data21 :: ndarray where
  "data21 = \<lparr>ptr = 4, shape0 = 2, shape1 = 1\<rparr>"

definition sched1 :: schedule where
  "sched1 = \<lparr>worker_of = (\<lambda>i. 7), arrival = [0]\<rparr>"

text \<open>A matrix of 2 rows and 1 column whose two entries are \<open>2^1023\<close>.\<close>

definition world_big :: world where
  "world_big = \<lparr>now = 0, stdout = '''', mem = (\<lambda>a. Num (2 ^ 1023)), calls = []\<rparr>"

definition data_big :: ndarray where
  "data_big = \<lparr>ptr = 0, shape0 = 2, shape1 = 1\<rparr>"

section \<open>Lemmas\<close>

subsection \<open>float64 rounding\<close>

lemma round_half_even_error: "\<bar>of_int (round_half_even x) - x\<bar> \<le> 1 / 2"
  unfolding round_half_even_def Let_def by auto

lemma round_half_even_of_int: "round_half_even (of_int k) = k"
  by (simp add: round_half_even_def)

lemma round_half_even_floor:
  "\<lfloor>x\<rfloor> \<le> round_half_even x \<and> round_half_even x \<le> \<lfloor>x\<rfloor> + 1"
  unfolding round_half_even_def Let_def by auto

lemma round_half_even_le: "x \<le> of_int k \<Longrightarrow> round_half_even x \<le> k"
proof (cases "x = of_int k")
  case True
  then show ?thesis by (simp add: round_half_even_of_int)
next
  case False
  assume "x \<le> of_int k"
  with False have "x < of_int k" by simp
  then have "\<lfloor>x\<rfloor> < k" by (simp add: floor_less_iff)
  with round_half_even_floor [of x] show ?thesis by linarith
qed

lemma round_half_even_ge: "of_int k \<le> x \<Longrightarrow> k \<le> round_half_even x"
proof -
  assume "of_int k \<le> x"
  then have "k \<le> \<lfloor>x\<rfloor>" by (simp add: le_floor_iff)
  then show ?thesis
    unfolding round_half_even_def Let_def by auto
qed

lemma halvings_bounds: "0 \<le> halvings n a \<and> halvings n a \<le> int n"
  by (induction n arbitrary: a) auto

lemma halvings_lower: "1 \<le> a \<Longrightarrow> power_int 2 (halvings n a) \<le> a"
proof (induction n arbitrary: a)
  case 0
  then show ?case by simp
next
  case (Suc n)
  show ?case
  proof (cases "2 \<le> a")
    case True
    then have "power_int 2 (halvings n (a / 2)) \<le> a / 2"
      by (intro Suc.IH) simp
    moreover have "power_int 2 (halvings n (a / 2) + 1) = power_int 2 (halvings n (a / 2)) * (2::real)"
      by (simp add: power_int_add)
    ultimately show ?thesis using True by simp
  next
    case False
    with Suc.prems show ?thesis by simp
  qed
qed

lemma halvings_upper: "1 \<le> a \<Longrightarrow> a < 2 ^ n \<Longrightarrow> a < power_int 2 (halvings n a + 1)"
proof (induction n arbitrary: a)
  case 0
  then show ?case by simp
next
  case (Suc n)
  show ?case
  proof (cases "2 \<le> a")
    case True
    with Suc.prems have "a / 2 < power_int 2 (halvings n (a / 2) + 1)"
      by (intro Suc.IH) simp_all
    moreover have "power_int 2 (halvings n (a / 2) + 1 + 1)
        = power_int 2 (halvings n (a / 2) + 1) * (2::real)"
      by (simp add: power_int_add)
    ultimately show ?thesis using True by simp
  next
    case False
    then show ?thesis by simp
  qed
qed

lemma halvings_full: "2 ^ n \<le> a \<Longrightarrow> halvings n a = int n"
proof (induction n arbitrary: a)
  case 0
  then show ?case by simp
next
  case (Suc n)
  have "(1::real) \<le> 2 ^ n" by (rule one_le_power) simp
  then have "(2::real) * 1 \<le> 2 * 2 ^ n" by simp
  moreover from Suc.prems have "2 * 2 ^ n \<le> a" by simp
  ultimately have "2 \<le> a" by linarith
  moreover from Suc.prems have "halvings n (a / 2) = int n" by (intro Suc.IH) simp
  ultimately show ?case by simp
qed

lemma power_int_2_pred: "power_int 2 (e - 1) = power_int 2 e / (2::real)"
  by (simp add: power_int_diff)

lemma power_int_2_succ: "power_int 2 (e + 1) = power_int 2 e * (2::real)"
  by (simp add: power_int_add)

lemma doublings_bounds: "0 \<le> doublings n a \<and> doublings n a \<le> int n"
  by (induction n arbitrary: a) auto

lemma doublings_full: "a * 2 ^ n < 1 \<Longrightarrow> doublings n a = int n"
proof (induction n arbitrary: a)
  case 0
  then show ?case by simp
next
  case (Suc n)
  have "0 < (2::real) ^ n" by simp
  from Suc.prems have *: "2 * a * 2 ^ n < 1" by (simp add: mult.assoc mult.left_commute)
  then have "doublings n (2 * a) = int n" by (rule Suc.IH)
  moreover have "a < 1"
  proof (rule ccontr)
    assume "\<not> a < 1"
    then have "1 \<le> a" by simp
    moreover have "(1::real) \<le> 2 ^ Suc n" by (rule one_le_power) simp
    ultimately have "1 * 1 \<le> a * 2 ^ Suc n" by (intro mult_mono) simp_all
    with Suc.prems show False by simp
  qed
  ultimately show ?case by simp
qed

lemma doublings_lower_upper:
  "0 < a \<Longrightarrow> a < 1 \<Longrightarrow> 1 \<le> a * 2 ^ n \<Longrightarrow>
   power_int 2 (- doublings n a) \<le> a \<and> a < power_int 2 (- doublings n a + 1)"
proof (induction n arbitrary: a)
  case 0
  then show ?case by simp
next
  case (Suc n)
  show ?case
  proof (cases "2 * a < 1")
    case True
    from Suc.prems have "1 \<le> 2 * a * 2 ^ n" by (simp add: mult.assoc mult.left_commute)
    with Suc.prems True
    have IH: "power_int 2 (- doublings n (2 * a)) \<le> 2 * a
        \<and> 2 * a < power_int 2 (- doublings n (2 * a) + 1)"
      by (intro Suc.IH) simp_all
    define e where "e = - doublings n (2 * a)"
    have d: "- doublings (Suc n) a = e - 1"
      using Suc.prems by (simp add: e_def)
    from IH have lo: "power_int 2 e \<le> 2 * a" and hi: "2 * a < power_int 2 (e + 1)"
      by (simp_all add: e_def)
    have "power_int 2 (e - 1) \<le> a"
      unfolding power_int_2_pred using lo by simp
    moreover have "a < power_int 2 e"
      using hi unfolding power_int_2_succ by simp
    ultimately show ?thesis unfolding d by simp
  next
    case False
    then have "doublings n (2 * a) = 0" by (cases n) simp_all
    with Suc.prems False show ?thesis by (simp add: power_int_minus)
  qed
qed

lemma binade_min: "- 1022 \<le> binade a"
  using halvings_bounds [of 1024 a] doublings_bounds [of 1022 a]
  by (simp add: binade_def)

lemma binade_max: "binade a \<le> 1024"
  using halvings_bounds [of 1024 a] doublings_bounds [of 1022 a]
  by (simp add: binade_def)

lemma tiny: "power_int 2 (- 1022) = 1 / (2::real) ^ 1022"
  by (simp add: power_int_minus_divide)

lemma binade_lower: "power_int 2 (- 1022) \<le> a \<Longrightarrow> power_int 2 (binade a) \<le> a"
proof (cases "1 \<le> a")
  case True
  then show ?thesis by (simp add: binade_def halvings_lower)
next
  case False
  assume "power_int 2 (- 1022) \<le> a"
  then have lo: "1 / 2 ^ 1022 \<le> a" by (simp only: tiny)
  have "0 < 1 / (2::real) ^ 1022" by simp
  with lo have pos: "0 < a" by linarith
  from lo have "1 \<le> a * 2 ^ 1022" by (simp add: field_simps)
  with pos False show ?thesis
    using doublings_lower_upper [of a 1022] by (simp add: binade_def)
qed

lemma small_less_1: "0 \<le> a \<Longrightarrow> a * 2 ^ n < 1 \<Longrightarrow> a < (1::real)"
proof -
  assume a: "0 \<le> a" "a * 2 ^ n < 1"
  have "(1::real) \<le> 2 ^ n" by (rule one_le_power) simp
  then have "a * 1 \<le> a * 2 ^ n" using a(1) by (rule mult_left_mono)
  with a(2) show ?thesis by simp
qed

lemma binade_sub: "0 \<le> a \<Longrightarrow> a < power_int 2 (- 1022) \<Longrightarrow> binade a = - 1022"
proof -
  assume a: "0 \<le> a" "a < power_int 2 (- 1022)"
  then have "a < 1 / 2 ^ 1022" by (simp only: tiny)
  then have s: "a * 2 ^ 1022 < 1" by (simp add: field_simps)
  from a(1) s have "a < 1" by (rule small_less_1)
  with s show ?thesis
    using doublings_full [of a 1022] by (simp add: binade_def)
qed

lemma binade_upper: "0 \<le> a \<Longrightarrow> a < 2 ^ 1024 \<Longrightarrow> a < power_int 2 (binade a + 1)"
proof -
  assume a: "0 \<le> a" "a < 2 ^ 1024"
  consider "1 \<le> a" | "a < 1" "power_int 2 (- 1022) \<le> a" | "a < power_int 2 (- 1022)"
    by linarith
  then show ?thesis
  proof cases
    case 1
    with a show ?thesis by (simp add: binade_def halvings_upper)
  next
    case 2
    then have lo: "1 / 2 ^ 1022 \<le> a" by (simp only: tiny)
    have "0 < 1 / (2::real) ^ 1022" by simp
    with lo have pos: "0 < a" by linarith
    from lo have "1 \<le> a * 2 ^ 1022" by (simp add: field_simps)
    with pos 2 show ?thesis
      using doublings_lower_upper [of a 1022] by (simp add: binade_def)
  next
    case 3
    with a have "binade a = - 1022" by (simp add: binade_sub)
    moreover have "power_int 2 (- 1022) < power_int (2::real) (- 1022 + 1)"
      by (rule power_int_strict_increasing) simp_all
    ultimately show ?thesis using 3 by simp
  qed
qed

lemma binade_big: "2 ^ 1024 \<le> a \<Longrightarrow> binade a = 1024"
proof -
  assume a: "2 ^ 1024 \<le> a"
  have "(1::real) \<le> 2 ^ 1024" by (rule one_le_power) simp
  with a have "1 \<le> a" by linarith
  with a show ?thesis using halvings_full [of 1024 a] by (simp add: binade_def)
qed

lemma ulp_pos: "0 < ulp x"
  by (simp add: ulp_def zero_less_power_int)

lemma ulp_grid: "\<exists>j::nat. ulp x = 2 ^ j * power_int 2 (- 1074)"
proof -
  define b where "b = binade \<bar>x\<bar>"
  define j where "j = nat (b + 1022)"
  have "- 1022 \<le> b" unfolding b_def by (rule binade_min)
  then have e: "b - 52 = int j + (- 1074)" by (simp add: j_def)
  have "power_int (2::real) (int j + (- 1074)) = power_int 2 (int j) * power_int 2 (- 1074)"
    by (rule power_int_add) simp
  then have "ulp x = 2 ^ j * power_int 2 (- 1074)"
    unfolding ulp_def b_def [symmetric] e by (simp only: power_int_of_nat)
  then show ?thesis ..
qed

lemma ulp_sub: "\<bar>x\<bar> < power_int 2 (- 1022) \<Longrightarrow> ulp x = power_int 2 (- 1074)"
  by (simp add: ulp_def binade_sub)

lemma ulp_normal: "power_int 2 (- 1022) \<le> \<bar>x\<bar> \<Longrightarrow> ulp x \<le> \<bar>x\<bar> / 2 ^ 52"
proof -
  assume "power_int 2 (- 1022) \<le> \<bar>x\<bar>"
  then have "power_int 2 (binade \<bar>x\<bar>) \<le> \<bar>x\<bar>" by (rule binade_lower)
  moreover have "ulp x = power_int 2 (binade \<bar>x\<bar>) / 2 ^ 52"
    by (simp add: ulp_def power_int_diff)
  ultimately show ?thesis by (simp add: divide_right_mono)
qed

lemma rnd_NumD:
  "rnd x = Num r \<Longrightarrow> r = of_int (round_half_even (x / ulp x)) * ulp x \<and> \<bar>r\<bar> < 2 ^ 1024"
  by (auto simp: rnd_def Let_def split: if_splits)

lemma rnd_error_ulp: "rnd x = Num r \<Longrightarrow> \<bar>r - x\<bar> \<le> ulp x / 2"
proof -
  assume "rnd x = Num r"
  then have r: "r = of_int (round_half_even (x / ulp x)) * ulp x" by (simp add: rnd_NumD)
  have "\<bar>of_int (round_half_even (x / ulp x)) - x / ulp x\<bar> \<le> 1 / 2"
    by (rule round_half_even_error)
  then have "\<bar>of_int (round_half_even (x / ulp x)) - x / ulp x\<bar> * ulp x \<le> 1 / 2 * ulp x"
    using ulp_pos [of x] by (intro mult_right_mono) simp_all
  moreover have "\<bar>of_int (round_half_even (x / ulp x)) - x / ulp x\<bar> * ulp x = \<bar>r - x\<bar>"
  proof -
    have "(of_int (round_half_even (x / ulp x)) - x / ulp x) * ulp x = r - x"
      using ulp_pos [of x] unfolding r by (simp add: left_diff_distrib)
    then have "\<bar>r - x\<bar> = \<bar>of_int (round_half_even (x / ulp x)) - x / ulp x\<bar> * \<bar>ulp x\<bar>"
      by (simp only: abs_mult [symmetric])
    with ulp_pos [of x] show ?thesis by simp
  qed
  ultimately show ?thesis by simp
qed

lemma rnd_grid: "rnd x = Num r \<Longrightarrow> \<exists>k::int. r = of_int k * power_int 2 (- 1074)"
proof -
  assume "rnd x = Num r"
  then have r: "r = of_int (round_half_even (x / ulp x)) * ulp x" by (simp add: rnd_NumD)
  obtain j :: nat where j: "ulp x = 2 ^ j * power_int 2 (- 1074)" using ulp_grid by blast
  have "r = of_int (round_half_even (x / ulp x) * 2 ^ j) * power_int 2 (- 1074)"
    unfolding r by (subst j) (simp only: of_int_mult of_int_power of_int_numeral mult.assoc)
  then show ?thesis ..
qed

lemma big_ge_1: "(1::real) \<le> 2 ^ 1024"
  by (rule one_le_power) simp

lemma tiny_le_1: "power_int 2 (- 1022) \<le> (1::real)"
proof -
  have "power_int (2::real) (- 1022) \<le> power_int 2 0"
    by (rule power_int_increasing) simp_all
  then show ?thesis by simp
qed

lemma rnd_exact:
  assumes "x / ulp x = of_int k" and "\<bar>x\<bar> < 2 ^ 1024"
  shows "rnd x = Num x"
proof -
  have "x = of_int k * ulp x"
    using ulp_pos [of x] assms(1) by (simp add: field_simps)
  then have "of_int (round_half_even (x / ulp x)) * ulp x = x"
    by (simp add: assms(1) round_half_even_of_int)
  with assms(2) show ?thesis by (simp add: rnd_def Let_def)
qed

lemma rnd_exact_sub:
  assumes "x = of_int k * power_int 2 (- 1074)" and "\<bar>x\<bar> < power_int 2 (- 1022)"
  shows "rnd x = Num x"
proof (rule rnd_exact)
  have u: "ulp x = power_int 2 (- 1074)" using assms(2) by (rule ulp_sub)
  have "0 < power_int (2::real) (- 1074)" by (simp add: zero_less_power_int)
  then show "x / ulp x = of_int k" unfolding u by (subst assms(1)) simp
  from assms(2) tiny_le_1 big_ge_1 show "\<bar>x\<bar> < 2 ^ 1024" by linarith
qed

lemma rnd_normal_error:
  assumes "rnd x = Num r" and "power_int 2 (- 1022) \<le> \<bar>x\<bar>"
  shows "\<bar>r - x\<bar> \<le> \<bar>x\<bar> / 2 ^ 53"
proof -
  have "\<bar>r - x\<bar> \<le> ulp x / 2" using assms(1) by (rule rnd_error_ulp)
  also have "ulp x / 2 \<le> (\<bar>x\<bar> / 2 ^ 52) / 2"
    using ulp_normal [OF assms(2)] by (rule divide_right_mono) simp
  also have "(\<bar>x\<bar> / 2 ^ 52) / 2 = \<bar>x\<bar> / 2 ^ 53"
    by (simp only: divide_divide_eq_left power_Suc2 [symmetric]) simp
  finally show ?thesis .
qed

lemma rnd_add_error:
  assumes "a = of_int i * power_int 2 (- 1074)" and "b = of_int j * power_int 2 (- 1074)"
    and "rnd (a + b) = Num r"
  shows "\<bar>r - (a + b)\<bar> \<le> \<bar>a + b\<bar> / 2 ^ 53"
proof (cases "power_int 2 (- 1022) \<le> \<bar>a + b\<bar>")
  case True
  with assms(3) show ?thesis by (rule rnd_normal_error)
next
  case False
  have "a + b = of_int (i + j) * power_int 2 (- 1074)"
    unfolding assms(1,2) by (simp only: of_int_add distrib_right)
  then have "rnd (a + b) = Num (a + b)"
    by (rule rnd_exact_sub) (use False in simp)
  with assms(3) have "r = a + b" by simp
  then show ?thesis by simp
qed

lemma rnd_error:
  assumes "rnd x = Num r"
  shows "\<bar>r - x\<bar> \<le> \<bar>x\<bar> / 2 ^ 53 + power_int 2 (- 1075)"
proof (cases "power_int 2 (- 1022) \<le> \<bar>x\<bar>")
  case True
  have "0 \<le> power_int (2::real) (- 1075)" by (simp add: zero_le_power_int)
  with rnd_normal_error [OF assms True] show ?thesis by linarith
next
  case False
  then have "ulp x = power_int 2 (- 1074)" by (intro ulp_sub) simp
  moreover have "power_int (2::real) (- 1074) / 2 = power_int 2 (- 1075)"
    using power_int_2_pred [of "- 1074"] by simp
  ultimately have "\<bar>r - x\<bar> \<le> power_int 2 (- 1075)"
    using rnd_error_ulp [OF assms] by simp
  moreover have "0 \<le> \<bar>x\<bar> / 2 ^ 53" by simp
  ultimately show ?thesis by linarith
qed

lemma rnd_0: "rnd 0 = Num 0"
  by (rule rnd_exact [where k = 0]) simp_all

lemma fadd_NumD:
  "fadd x y = Num s \<Longrightarrow> \<exists>a b. x = Num a \<and> y = Num b \<and> rnd (a + b) = Num s"
  by (cases x; cases y) simp_all

lemma pow_mono_1: "0 \<le> u \<Longrightarrow> i \<le> j \<Longrightarrow> (1 + u) ^ i - 1 \<le> (1 + u) ^ j - (1::real)"
  by (simp add: power_increasing)

lemma sum_step:
  fixes u :: real
  assumes u: "0 \<le> u"
    and El: "\<bar>sl - Sl\<bar> \<le> ((1 + u) ^ kl - 1) * Al"
    and Er: "\<bar>sr - Sr\<bar> \<le> ((1 + u) ^ kr - 1) * Ar"
    and e: "\<bar>s - (sl + sr)\<bar> \<le> \<bar>sl + sr\<bar> * u"
    and Al: "\<bar>Sl\<bar> \<le> Al" and Ar: "\<bar>Sr\<bar> \<le> Ar"
  shows "\<bar>s - (Sl + Sr)\<bar> \<le> ((1 + u) ^ (kl + kr + 1) - 1) * (Al + Ar)"
proof -
  define K where "K = (1 + u) ^ (kl + kr) - 1"
  have K0: "0 \<le> K" unfolding K_def using u by (simp add: one_le_power)
  have A0: "0 \<le> Al" "0 \<le> Ar" using Al Ar by linarith+
  have "(1 + u) ^ kl - 1 \<le> K" "(1 + u) ^ kr - 1 \<le> K"
    unfolding K_def using u by (simp_all add: pow_mono_1)
  then have "((1 + u) ^ kl - 1) * Al \<le> K * Al" "((1 + u) ^ kr - 1) * Ar \<le> K * Ar"
    using A0 by (simp_all add: mult_right_mono)
  with El Er have El': "\<bar>sl - Sl\<bar> \<le> K * Al" and Er': "\<bar>sr - Sr\<bar> \<le> K * Ar" by linarith+
  have "\<bar>sl + sr\<bar> \<le> Al + Ar + K * Al + K * Ar"
    using El' Er' Al Ar by linarith
  then have "\<bar>sl + sr\<bar> * u \<le> (Al + Ar + K * Al + K * Ar) * u"
    using u by (rule mult_right_mono)
  with e have "\<bar>s - (sl + sr)\<bar> \<le> (Al + Ar + K * Al + K * Ar) * u" by linarith
  with El' Er' have "\<bar>s - (Sl + Sr)\<bar> \<le> (Al + Ar + K * Al + K * Ar) * u + K * Al + K * Ar"
    by linarith
  also have "\<dots> = ((1 + u) * (1 + K) - 1) * (Al + Ar)"
    by (simp add: algebra_simps)
  also have "(1 + u) * (1 + K) = (1 + u) ^ (kl + kr + 1)"
    unfolding K_def by simp
  finally show ?thesis .
qed

lemma reduce_error:
  assumes xs: "\<And>i. i < length xs \<Longrightarrow> xs ! i = Num (a i) \<and> rnd (a i) = Num (a i)"
    and "set (items t) \<subseteq> {..<length xs}"
    and "reduce t xs = Num s"
  shows "\<bar>s - sum_list (map a (items t))\<bar>
           \<le> ((1 + 1 / 2 ^ 53) ^ additions t - 1) * sum_list (map (\<lambda>i. \<bar>a i\<bar>) (items t))
         \<and> (\<exists>k::int. s = of_int k * power_int 2 (- 1074))"
  using assms(2,3)
proof (induction t arbitrary: s)
  case Zero
  then have "s = of_int 0 * power_int 2 (- 1074)" by simp
  with Zero show ?case by auto
next
  case (Item i)
  then have i: "i < length xs" by simp
  with Item xs [of i] have s: "s = a i" and f: "rnd (a i) = Num (a i)" by simp_all
  from f have "\<exists>k::int. a i = of_int k * power_int 2 (- 1074)" by (rule rnd_grid)
  with s show ?case by simp
next
  case (Plus l r)
  from Plus.prems(2) obtain sl sr where l: "reduce l xs = Num sl" and r: "reduce r xs = Num sr"
    and s: "rnd (sl + sr) = Num s"
    using fadd_NumD [of "reduce l xs" "reduce r xs" s] by auto
  from Plus.prems(1) have il: "set (items l) \<subseteq> {..<length xs}"
    and ir: "set (items r) \<subseteq> {..<length xs}" by simp_all
  note IHl = Plus.IH(1) [OF il l] and IHr = Plus.IH(2) [OF ir r]
  from IHl IHr obtain kl kr :: int where
    gl: "sl = of_int kl * power_int 2 (- 1074)" and gr: "sr = of_int kr * power_int 2 (- 1074)"
    by blast
  have e: "\<bar>s - (sl + sr)\<bar> \<le> \<bar>sl + sr\<bar> * (1 / 2 ^ 53)"
    using rnd_add_error [OF gl gr s] by simp
  have al: "\<bar>sum_list (map a (items l))\<bar> \<le> sum_list (map (\<lambda>i. \<bar>a i\<bar>) (items l))"
    using sum_list_abs [of "map a (items l)"] by (simp add: comp_def)
  have ar: "\<bar>sum_list (map a (items r))\<bar> \<le> sum_list (map (\<lambda>i. \<bar>a i\<bar>) (items r))"
    using sum_list_abs [of "map a (items r)"] by (simp add: comp_def)
  have "\<bar>s - (sum_list (map a (items l)) + sum_list (map a (items r)))\<bar>
      \<le> ((1 + 1 / 2 ^ 53) ^ (additions l + additions r + 1) - 1)
         * (sum_list (map (\<lambda>i. \<bar>a i\<bar>) (items l)) + sum_list (map (\<lambda>i. \<bar>a i\<bar>) (items r)))"
    by (rule sum_step [OF _ _ _ e al ar]) (use IHl IHr in simp_all)
  moreover from s have "\<exists>k::int. s = of_int k * power_int 2 (- 1074)" by (rule rnd_grid)
  ultimately show ?case by simp
qed

lemma power_int_2_less_imp: "power_int (2::real) m < power_int 2 n \<Longrightarrow> m < n"
proof (rule ccontr)
  assume less: "power_int (2::real) m < power_int 2 n" and "\<not> m < n"
  then have "n \<le> m" by simp
  then have "power_int (2::real) n \<le> power_int 2 m"
    by (intro power_int_increasing) simp_all
  with less show False by simp
qed

lemma binade_unique:
  assumes "power_int 2 e \<le> a" and "a < power_int 2 (e + 1)" and "- 1022 \<le> e" and "e \<le> 1023"
  shows "binade a = e"
proof -
  have "power_int (2::real) (- 1022) \<le> power_int 2 e"
    using assms(3) by (intro power_int_increasing) simp_all
  with assms(1) have lo: "power_int 2 (- 1022) \<le> a" by linarith
  have "0 < power_int (2::real) (- 1022)" by (simp add: zero_less_power_int)
  with lo have a0: "0 \<le> a" by linarith
  have "power_int (2::real) (e + 1) \<le> power_int 2 1024"
    using assms(4) by (intro power_int_increasing) simp_all
  then have "power_int (2::real) (e + 1) \<le> 2 ^ 1024" by (simp only: power_int_numeral)
  with assms(2) have hi: "a < 2 ^ 1024" by linarith
  have b1: "power_int 2 (binade a) \<le> a" using lo by (rule binade_lower)
  have b2: "a < power_int 2 (binade a + 1)" using a0 hi by (rule binade_upper)
  from b1 assms(2) have "power_int (2::real) (binade a) < power_int 2 (e + 1)" by linarith
  then have "binade a < e + 1" by (rule power_int_2_less_imp)
  moreover from assms(1) b2 have "power_int (2::real) e < power_int 2 (binade a + 1)" by linarith
  then have "e < binade a + 1" by (rule power_int_2_less_imp)
  ultimately show ?thesis by simp
qed

lemma rnd_overflow: "2 ^ 1024 \<le> x \<Longrightarrow> rnd x = PInf"
proof -
  assume x: "2 ^ 1024 \<le> x"
  have "(0::real) < 2 ^ 1024" by simp
  with x have x0: "0 < x" by linarith
  then have ax: "\<bar>x\<bar> = x" by simp
  have "binade \<bar>x\<bar> = 1024" unfolding ax using x by (rule binade_big)
  then have u: "ulp x = power_int 2 972" by (simp add: ulp_def del: power_int_numeral)
  have split: "(2::real) ^ 1024 = of_int (2 ^ 52) * power_int 2 972"
  proof -
    have "(2::real) ^ 1024 = 2 ^ 52 * 2 ^ 972" by (simp only: power_add [symmetric]) simp
    then show ?thesis by (simp only: of_int_power of_int_numeral power_int_numeral)
  qed
  have up: "0 < power_int (2::real) 972" by (simp add: zero_less_power_int del: power_int_numeral)
  have "of_int (2 ^ 52) \<le> x / ulp x"
    unfolding u using x up unfolding split by (simp add: le_divide_eq del: power_int_numeral of_int_power)
  then have "2 ^ 52 \<le> round_half_even (x / ulp x)" by (rule round_half_even_ge)
  then have "(of_int (2 ^ 52) :: real) \<le> of_int (round_half_even (x / ulp x))"
    by (simp only: of_int_le_iff)
  then have "of_int (2 ^ 52) * power_int 2 972 \<le> of_int (round_half_even (x / ulp x)) * ulp x"
    unfolding u using up by (intro mult_right_mono) simp_all
  then have "2 ^ 1024 \<le> \<bar>of_int (round_half_even (x / ulp x)) * ulp x\<bar>"
    unfolding split [symmetric] by linarith
  with x0 show ?thesis by (simp only: rnd_def Let_def if_True)
qed

lemma rnd_power_int:
  assumes "- 1022 \<le> e" and "e \<le> 1023"
  shows "rnd (power_int 2 e) = Num (power_int 2 e)"
proof (rule rnd_exact [where k = "2 ^ 52"])
  have pos: "0 < power_int (2::real) e" by (simp add: zero_less_power_int)
  have "power_int (2::real) e < power_int 2 (e + 1)"
    by (intro power_int_strict_increasing) simp_all
  then have "binade (power_int 2 e) = e"
    using assms by (intro binade_unique) simp_all
  then have u: "ulp (power_int 2 e) = power_int 2 (e - 52)"
    using pos by (simp add: ulp_def)
  have "power_int (2::real) e / power_int 2 (e - 52) = power_int 2 (e - (e - 52))"
    by (rule power_int_diff [symmetric]) simp
  then show "power_int (2::real) e / ulp (power_int 2 e) = real_of_int (2 ^ 52)"
    unfolding u by simp
  have "power_int (2::real) e < power_int 2 1024"
    using assms by (intro power_int_strict_increasing) simp_all
  then have "power_int (2::real) e < 2 ^ 1024" by (simp only: power_int_numeral)
  with pos show "\<bar>power_int (2::real) e\<bar> < 2 ^ 1024" by simp
qed

lemma rnd_nat_exact:
  assumes "n \<le> 2 ^ 53"
  shows "rnd (real n) = Num (real n)"
proof (cases "n = 0")
  case True
  then show ?thesis by (simp add: rnd_0)
next
  case False
  define a where "a = real n"
  define b where "b = binade a"
  have a1: "1 \<le> a" using False by (simp add: a_def)
  have a53: "a \<le> 2 ^ 53" using assms unfolding a_def
    by (metis of_nat_le_iff of_nat_numeral of_nat_power)
  have "(2::real) ^ 53 < 2 ^ 1024" by (rule power_strict_increasing) simp_all
  with a53 have big: "a < 2 ^ 1024" by linarith
  have lo: "power_int 2 b \<le> a"
    unfolding b_def using tiny_le_1 a1 by (intro binade_lower) linarith
  have b0: "0 \<le> b" unfolding b_def using a1 halvings_bounds [of 1024 a] by (simp add: binade_def)
  have "power_int (2::real) b < power_int 2 54"
  proof -
    have "(2::real) ^ 53 < 2 ^ 54" by (rule power_strict_increasing) simp_all
    with lo a53 have "power_int (2::real) b < 2 ^ 54" by linarith
    then show ?thesis by (simp only: power_int_numeral)
  qed
  then have b53: "b \<le> 53" using power_int_2_less_imp [of b 54] by simp
  have u: "ulp a = power_int 2 (b - 52)" using a1 by (simp add: ulp_def b_def)
  have "\<exists>k::int. a / ulp a = of_int k"
  proof (cases "b \<le> 52")
    case True
    define j where "j = nat (52 - b)"
    have "b - 52 = - int j" using True by (simp add: j_def)
    then have "ulp a = 1 / 2 ^ j" unfolding u by (simp add: power_int_minus_divide)
    then have "a / ulp a = of_int (int n * 2 ^ j)" by (simp add: a_def)
    then show ?thesis ..
  next
    case False
    with b53 have b: "b = 53" by simp
    from lo have "2 ^ 53 \<le> a" unfolding b by (simp only: power_int_numeral)
    with a53 have a: "a = 2 ^ 53" by linarith
    have "ulp a = 2" unfolding u b by simp
    then have "a / ulp a = of_int (2 ^ 52)" unfolding a by simp
    then show ?thesis ..
  qed
  then obtain k :: int where "a / ulp a = of_int k" ..
  then have "rnd a = Num a" using big a1 by (intro rnd_exact) simp_all
  then show ?thesis by (simp add: a_def)
qed

lemma max_float_less: "max_float < 2 ^ 1024"
proof -
  have "((2::real) ^ 53 - 1) * 2 ^ 971 < 2 ^ 53 * 2 ^ 971"
    by (rule mult_strict_right_mono) simp_all
  also have "(2::real) ^ 53 * 2 ^ 971 = 2 ^ 1024"
    by (simp only: power_add [symmetric]) simp
  finally show ?thesis by (simp only: max_float_def)
qed

lemma max_float_ge: "2 ^ 1023 \<le> max_float"
proof -
  have "(2::real) ^ 1023 = 2 ^ 52 * 2 ^ 971" by (simp only: power_add [symmetric]) simp
  also have "\<dots> \<le> (2 ^ 53 - 1) * 2 ^ 971"
    by (rule mult_right_mono) simp_all
  finally show ?thesis by (simp only: max_float_def)
qed

lemma round_half_even_abs: "\<bar>y\<bar> \<le> of_int k \<Longrightarrow> \<bar>round_half_even y\<bar> \<le> k"
proof -
  assume y: "\<bar>y\<bar> \<le> of_int k"
  then have "y \<le> of_int k" and "of_int (- k) \<le> y" by simp_all
  then have "round_half_even y \<le> k" and "- k \<le> round_half_even y"
    by (simp_all only: round_half_even_le round_half_even_ge)
  then show ?thesis by simp
qed

lemma rnd_steps:
  assumes "\<bar>x\<bar> \<le> of_int k * ulp x"
  shows "\<bar>of_int (round_half_even (x / ulp x)) * ulp x\<bar> \<le> of_int k * ulp x"
proof -
  have u: "0 < ulp x" by (rule ulp_pos)
  have "\<bar>x / ulp x\<bar> = \<bar>x\<bar> / ulp x" using u by simp
  also have "\<dots> \<le> of_int k" using assms u by (simp add: divide_le_eq)
  finally have "\<bar>round_half_even (x / ulp x)\<bar> \<le> k" by (rule round_half_even_abs)
  then have "\<bar>of_int (round_half_even (x / ulp x)) :: real\<bar> \<le> of_int k"
    by (metis of_int_abs of_int_le_iff)
  then have "\<bar>of_int (round_half_even (x / ulp x))\<bar> * ulp x \<le> of_int k * ulp x"
    using u by (intro mult_right_mono) simp_all
  then show ?thesis using u by (simp add: abs_mult)
qed

lemma rnd_finite:
  assumes "\<bar>x\<bar> \<le> max_float"
  shows "\<exists>r. rnd x = Num r \<and> \<bar>r\<bar> \<le> max_float"
proof -
  define r where "r = of_int (round_half_even (x / ulp x)) * ulp x"
  define b where "b = binade \<bar>x\<bar>"
  have u: "ulp x = power_int 2 (b - 52)" by (simp add: ulp_def b_def)
  from assms max_float_less have big: "\<bar>x\<bar> < 2 ^ 1024" by linarith
  have up: "\<bar>x\<bar> < power_int 2 (b + 1)"
    unfolding b_def using big by (intro binade_upper) simp_all
  have e53: "power_int (2::real) (b + 1) = of_int (2 ^ 53) * power_int 2 (b - 52)"
  proof -
    have "power_int (2::real) (53 + (b - 52)) = power_int 2 53 * power_int 2 (b - 52)"
      by (rule power_int_add) simp
    then show ?thesis by (simp add: add.commute)
  qed
  have b_le: "b \<le> 1023"
  proof (cases "power_int 2 (- 1022) \<le> \<bar>x\<bar>")
    case True
    then have "power_int 2 b \<le> \<bar>x\<bar>" unfolding b_def by (rule binade_lower)
    with big have "power_int (2::real) b < 2 ^ 1024" by linarith
    then have "power_int (2::real) b < power_int 2 1024" by (simp only: power_int_numeral)
    then have "b < 1024" by (rule power_int_2_less_imp)
    then show ?thesis by simp
  next
    case False
    then have "b = - 1022" unfolding b_def by (intro binade_sub) simp_all
    then show ?thesis by simp
  qed
  have "\<bar>r\<bar> \<le> max_float"
  proof (cases "b = 1023")
    case True
    have u971: "ulp x = 2 ^ 971" unfolding u True by simp
    have "\<bar>x\<bar> \<le> of_int (2 ^ 53 - 1) * ulp x"
      using assms unfolding u971 max_float_def by simp
    then have "\<bar>r\<bar> \<le> of_int (2 ^ 53 - 1) * ulp x" unfolding r_def by (rule rnd_steps)
    then show ?thesis unfolding u971 max_float_def by simp
  next
    case False
    with b_le have b: "b + 1 \<le> 1023" by simp
    from up have "\<bar>x\<bar> \<le> of_int (2 ^ 53) * ulp x" unfolding u e53 by simp
    then have "\<bar>r\<bar> \<le> of_int (2 ^ 53) * ulp x" unfolding r_def by (rule rnd_steps)
    then have "\<bar>r\<bar> \<le> power_int 2 (b + 1)" unfolding u e53 .
    also have "power_int (2::real) (b + 1) \<le> power_int 2 1023"
      using b by (intro power_int_increasing) simp_all
    also have "power_int (2::real) 1023 = 2 ^ 1023" by (simp only: power_int_numeral)
    also note max_float_ge
    finally show ?thesis .
  qed
  moreover from this max_float_less have "\<bar>r\<bar> < 2 ^ 1024" by linarith
  then have "rnd x = Num r" by (simp add: rnd_def Let_def r_def)
  ultimately show ?thesis by blast
qed

lemma valid_plan_set: "valid_plan t n \<Longrightarrow> set (items t) = {..<n}"
proof -
  assume "valid_plan t n"
  then have "set_mset (mset (items t)) = set_mset (mset [0..<n])"
    by (simp only: valid_plan_def)
  then show ?thesis by (simp add: atLeast0LessThan)
qed

lemma valid_plan_sum:
  fixes f :: "nat \<Rightarrow> real"
  shows "valid_plan t n \<Longrightarrow> sum_list (map f (items t)) = (\<Sum>i<n. f i)"
proof -
  assume "valid_plan t n"
  then have "mset (map f (items t)) = mset (map f [0..<n])"
    by (simp only: valid_plan_def mset_map)
  then have "sum_mset (mset (map f (items t))) = sum_mset (mset (map f [0..<n]))" by simp
  then have "sum_list (map f (items t)) = sum_list (map f [0..<n])"
    by (simp only: sum_mset_sum_list)
  then show ?thesis by (simp add: sum_list_sum_nth atLeast0LessThan)
qed

lemma abs_close:
  fixes u :: real
  shows "\<bar>s - y\<bar> \<le> \<bar>y\<bar> * u \<Longrightarrow> \<bar>s\<bar> \<le> (1 + u) * \<bar>y\<bar>"
  by (simp add: algebra_simps)

lemma reduce_finite:
  assumes xs: "\<And>i. i < length xs \<Longrightarrow> xs ! i = Num (a i) \<and> rnd (a i) = Num (a i)"
    and "set (items t) \<subseteq> {..<length xs}"
    and "(1 + 1 / 2 ^ 53) ^ additions t * sum_list (map (\<lambda>i. \<bar>a i\<bar>) (items t)) \<le> max_float"
  shows "\<exists>s. reduce t xs = Num s
           \<and> \<bar>s\<bar> \<le> (1 + 1 / 2 ^ 53) ^ additions t * sum_list (map (\<lambda>i. \<bar>a i\<bar>) (items t))"
  using assms(2,3)
proof (induction t)
  case Zero
  then show ?case by simp
next
  case (Item i)
  then have "i < length xs" by simp
  with xs [of i] show ?case by simp
next
  case (Plus l r)
  define p :: real where "p = 1 + 1 / 2 ^ 53"
  define Al where "Al = sum_list (map (\<lambda>i. \<bar>a i\<bar>) (items l))"
  define Ar where "Ar = sum_list (map (\<lambda>i. \<bar>a i\<bar>) (items r))"
  define kl where "kl = additions l"
  define kr where "kr = additions r"
  have p1: "1 \<le> p" by (simp add: p_def)
  have A0: "0 \<le> Al" "0 \<le> Ar"
    unfolding Al_def Ar_def by (rule sum_list_nonneg, auto)+
  from Plus.prems(1) have il: "set (items l) \<subseteq> {..<length xs}"
    and ir: "set (items r) \<subseteq> {..<length xs}" by simp_all
  from Plus.prems(2) have top: "p ^ (kl + kr + 1) * (Al + Ar) \<le> max_float"
    by (simp add: p_def Al_def Ar_def kl_def kr_def)
  have pl: "p ^ kl \<le> p ^ (kl + kr)" and pr: "p ^ kr \<le> p ^ (kl + kr)"
    using p1 by (simp_all add: power_increasing)
  have pk0: "0 \<le> p ^ (kl + kr)" using p1 by simp
  have step: "p ^ (kl + kr) * (Al + Ar) \<le> p ^ (kl + kr + 1) * (Al + Ar)"
  proof -
    have "p ^ (kl + kr) \<le> p ^ (kl + kr + 1)" using p1 by (intro power_increasing) simp_all
    then show ?thesis using A0 by (intro mult_right_mono) simp_all
  qed
  have bl: "p ^ kl * Al \<le> p ^ (kl + kr) * (Al + Ar)"
  proof -
    have "p ^ kl * Al \<le> p ^ (kl + kr) * Al" using pl A0 by (intro mult_right_mono)
    also have "\<dots> \<le> p ^ (kl + kr) * (Al + Ar)" using pk0 A0 by (intro mult_left_mono) simp_all
    finally show ?thesis .
  qed
  have br: "p ^ kr * Ar \<le> p ^ (kl + kr) * (Al + Ar)"
  proof -
    have "p ^ kr * Ar \<le> p ^ (kl + kr) * Ar" using pr A0 by (intro mult_right_mono)
    also have "\<dots> \<le> p ^ (kl + kr) * (Al + Ar)" using pk0 A0 by (intro mult_left_mono) simp_all
    finally show ?thesis .
  qed
  have sum: "p ^ kl * Al + p ^ kr * Ar \<le> p ^ (kl + kr) * (Al + Ar)"
  proof -
    have "p ^ kl * Al \<le> p ^ (kl + kr) * Al" using pl A0 by (intro mult_right_mono)
    moreover have "p ^ kr * Ar \<le> p ^ (kl + kr) * Ar" using pr A0 by (intro mult_right_mono)
    ultimately show ?thesis by (simp add: distrib_left)
  qed
  from bl step top have "p ^ kl * Al \<le> max_float" by linarith
  then obtain sl where l: "reduce l xs = Num sl" and sl: "\<bar>sl\<bar> \<le> p ^ kl * Al"
    using Plus.IH(1) [OF il] by (auto simp: p_def Al_def kl_def)
  from br step top have "p ^ kr * Ar \<le> max_float" by linarith
  then obtain sr where r: "reduce r xs = Num sr" and sr: "\<bar>sr\<bar> \<le> p ^ kr * Ar"
    using Plus.IH(2) [OF ir] by (auto simp: p_def Ar_def kr_def)
  from sl sr sum have B: "\<bar>sl + sr\<bar> \<le> p ^ (kl + kr) * (Al + Ar)" by linarith
  with step top have "\<bar>sl + sr\<bar> \<le> max_float" by linarith
  then obtain s where s: "rnd (sl + sr) = Num s" using rnd_finite by blast
  obtain i j :: int where g: "sl = of_int i * power_int 2 (- 1074)" "sr = of_int j * power_int 2 (- 1074)"
    using reduce_error [of xs a l sl, OF xs il l] reduce_error [of xs a r sr, OF xs ir r] by blast
  have "\<bar>s - (sl + sr)\<bar> \<le> \<bar>sl + sr\<bar> / 2 ^ 53" using g s by (rule rnd_add_error)
  then have "\<bar>s - (sl + sr)\<bar> \<le> \<bar>sl + sr\<bar> * (1 / 2 ^ 53)" by simp
  then have "\<bar>s\<bar> \<le> p * \<bar>sl + sr\<bar>" unfolding p_def by (rule abs_close)
  also have "\<dots> \<le> p * (p ^ (kl + kr) * (Al + Ar))"
    using B p1 by (intro mult_left_mono) simp_all
  finally have "\<bar>s\<bar> \<le> p ^ (kl + kr + 1) * (Al + Ar)" by (simp add: mult.assoc)
  with l r s show ?case by (simp add: p_def Al_def Ar_def kl_def kr_def)
qed

lemma div_step:
  fixes u :: real
  assumes u: "0 \<le> u" and n: "0 < n"
    and E: "\<bar>s - S\<bar> \<le> ((1 + u) ^ k - 1) * A" and A: "\<bar>S\<bar> \<le> A"
    and e: "\<bar>m - s / n\<bar> \<le> \<bar>s / n\<bar> * u + \<tau>"
  shows "\<bar>m - S / n\<bar> \<le> ((1 + u) ^ (k + 1) - 1) * (A / n) + \<tau>"
proof -
  define K where "K = (1 + u) ^ k - 1"
  have K0: "0 \<le> K" unfolding K_def using u by (simp add: one_le_power)
  have "\<bar>s\<bar> \<le> A + K * A" using E A unfolding K_def by linarith
  then have "\<bar>s\<bar> / n \<le> (A + K * A) / n" using n by (simp add: divide_right_mono)
  then have "\<bar>s / n\<bar> * u \<le> (A + K * A) / n * u"
    using u n by (intro mult_right_mono) simp_all
  moreover have "\<bar>s / n - S / n\<bar> \<le> K * A / n"
  proof -
    have "\<bar>s / n - S / n\<bar> = \<bar>s - S\<bar> / n" using n by (simp add: diff_divide_distrib [symmetric])
    also have "\<dots> \<le> K * A / n" using E n unfolding K_def by (simp add: divide_right_mono)
    finally show ?thesis .
  qed
  ultimately have "\<bar>m - S / n\<bar> \<le> (A + K * A) / n * u + \<tau> + K * A / n"
    using e by linarith
  also have "\<dots> = ((1 + u) * (1 + K) - 1) * (A / n) + \<tau>"
    by (simp add: algebra_simps add_divide_distrib)
  also have "(1 + u) * (1 + K) = (1 + u) ^ (k + 1)" unfolding K_def by simp
  finally show ?thesis .
qed

subsection \<open>One call\<close>

lemma mem_time_sleep: "mem (time_sleep secs w) = mem w"
  by (simp add: time_sleep_def)

lemma snd_calc_column_mean:
  "snd (calc_column_mean order data column w)
     = time_sleep (1 / 100) (w\<lparr>calls := calls w @ [(column, now w)]\<rparr>)"
  by (simp add: calc_column_mean_def Let_def split: sum.splits)

lemma mem_calc_column_mean: "mem (snd (calc_column_mean order data column w)) = mem w"
  by (simp add: snd_calc_column_mean mem_time_sleep)

lemma getitem_col_cases:
  "getitem_col data column =
     (if - int (shape1 data) \<le> column \<and> column < int (shape1 data) then
        Inr \<lparr>vptr = ptr data + nat (if column < 0 then column + int (shape1 data) else column),
             vstride = shape1 data, vcount = shape0 data\<rparr>
      else if 2 ^ 63 \<le> column \<and> column < 2 ^ 64 then Inl OverflowError
      else Inl IndexError)"
  by (simp add: getitem_col_def Let_def)

lemma mean_column:
  "mean order \<lparr>vptr = ptr data + j, vstride = shape1 data, vcount = shape0 data\<rparr> w
     = column_mean order w data j"
  by (simp add: mean_def view_values_def column_mean_def getitem2_def ac_simps)

lemma column_mean_mem:
  "mem w = mem w' \<Longrightarrow> column_mean order w data j = column_mean order w' data j"
  by (simp add: column_mean_def getitem2_def)

lemma column_mean_cong:
  assumes "shape0 d1 = shape0 d2"
    and "\<And>i. i < shape0 d1 \<Longrightarrow> getitem2 w1 d1 i j = getitem2 w2 d2 i j"
  shows "column_mean order w1 d1 j = column_mean order w2 d2 j"
proof -
  have "map (\<lambda>i. getitem2 w1 d1 i j) [0..<shape0 d1] = map (\<lambda>i. getitem2 w2 d2 i j) [0..<shape0 d1]"
    by (rule map_cong) (use assms(2) in auto)
  then show ?thesis unfolding column_mean_def assms(1) [symmetric] by (simp only:)
qed

lemma fst_calc_column_mean_cases:
  "fst (calc_column_mean order data column w) =
     (if - int (shape1 data) \<le> column \<and> column < int (shape1 data) then
        Inr (column_mean order w data
               (nat (if column < 0 then column + int (shape1 data) else column)))
      else if 2 ^ 63 \<le> column \<and> column < 2 ^ 64 then Inl OverflowError
      else Inl IndexError)"
proof -
  have m: "mem (time_sleep (1 / 100) (w\<lparr>calls := calls w @ [(column, now w)]\<rparr>)) = mem w"
    by (simp add: mem_time_sleep)
  show ?thesis
    by (simp add: calc_column_mean_def Let_def getitem_col_cases mean_column
        column_mean_mem [OF m] del: power_numeral)
qed

lemma fst_calc_column_mean:
  "j < shape1 data \<Longrightarrow>
   fst (calc_column_mean order data (int j) w) = Inr (column_mean order w data j)"
  by (simp add: fst_calc_column_mean_cases)

lemma fst_calc_column_mean_int:
  "0 \<le> column \<Longrightarrow> column < int (shape1 data) \<Longrightarrow>
   fst (calc_column_mean order data column w) = Inr (column_mean order w data (nat column))"
  by (simp add: fst_calc_column_mean_cases)

subsection \<open>The comprehension\<close>

lemma comprehension_inv:
  assumes "\<And>x s. x \<in> set xs \<Longrightarrow> I s \<Longrightarrow> fst (f x s) = Inr (g x) \<and> I (snd (f x s))"
    and "I s"
  shows "fst (comprehension f xs s) = Inr (map g xs) \<and> I (snd (comprehension f xs s))
     \<and> snd (comprehension f xs s) = fold (\<lambda>x s. snd (f x s)) xs s"
  using assms
proof (induction xs arbitrary: s)
  case Nil
  then show ?case by simp
next
  case (Cons x xs)
  obtain r s1 where fx: "f x s = (r, s1)" by (cases "f x s")
  from Cons.prems(1) [of x s] Cons.prems(2) fx have r: "r = Inr (g x)" and I1: "I s1" by auto
  have "fst (comprehension f xs s1) = Inr (map g xs) \<and> I (snd (comprehension f xs s1))
     \<and> snd (comprehension f xs s1) = fold (\<lambda>x s. snd (f x s)) xs s1"
    by (rule Cons.IH) (use Cons.prems(1) I1 in auto)
  then show ?case
    by (cases "comprehension f xs s1") (simp add: fx r)
qed

lemma comprehension_raises:
  assumes "\<exists>x\<in>set xs. \<forall>s. \<exists>e. fst (f x s) = Inl e"
  shows "\<exists>e. fst (comprehension f xs s) = Inl e"
  using assms
proof (induction xs arbitrary: s)
  case Nil
  then show ?case by simp
next
  case (Cons x xs)
  obtain r s1 where fx: "f x s = (r, s1)" by (cases "f x s")
  show ?case
  proof (cases r)
    case (Inl e)
    with fx show ?thesis by simp
  next
    case (Inr v)
    have "\<not> (\<forall>s. \<exists>e. fst (f x s) = Inl e)"
    proof
      assume "\<forall>s. \<exists>e. fst (f x s) = Inl e"
      then have "\<exists>e. fst (f x s) = Inl e" ..
      with fx Inr show False by simp
    qed
    with Cons.prems have "\<exists>x\<in>set xs. \<forall>s. \<exists>e. fst (f x s) = Inl e" by auto
    then obtain e where "fst (comprehension f xs s1) = Inl e" using Cons.IH by blast
    then show ?thesis
      by (cases "comprehension f xs s1") (simp add: fx Inr)
  qed
qed

lemma comprehension_error_from:
  assumes "fst (comprehension f xs s) = Inl e"
  shows "\<exists>x\<in>set xs. \<exists>s'. fst (f x s') = Inl e"
  using assms
proof (induction xs arbitrary: s)
  case Nil
  then show ?case by simp
next
  case (Cons x xs)
  obtain r s1 where fx: "f x s = (r, s1)" by (cases "f x s")
  show ?case
  proof (cases r)
    case (Inl e')
    with fx Cons.prems have "fst (f x s) = Inl e" by simp
    then show ?thesis by auto
  next
    case (Inr v)
    with fx Cons.prems have "fst (comprehension f xs s1) = Inl e"
      by (cases "comprehension f xs s1") (auto split: sum.splits)
    then have "\<exists>x\<in>set xs. \<exists>s'. fst (f x s') = Inl e" by (rule Cons.IH)
    then show ?thesis by auto
  qed
qed

lemma fold_calls:
  "fold (\<lambda>x s. snd (calc_column_mean order data x s)) (map int [0..<n]) w
     = w\<lparr>now := now w + real n * (1 / 100),
         calls := calls w @ map (\<lambda>j. (int j, now w + real j * (1 / 100))) [0..<n]\<rparr>"
proof (induction n)
  case 0
  then show ?case by simp
next
  case (Suc n)
  then show ?case
    by (simp add: snd_calc_column_mean time_sleep_def algebra_simps)
qed

lemma serial_result:
  "column_means_serial order data w =
     (Inr (map (column_mean order w data) [0..<shape1 data]),
      w\<lparr>now := now w + real (shape1 data) * (1 / 100),
        calls := calls w
          @ map (\<lambda>j. (int j, now w + real j * (1 / 100))) [0..<shape1 data]\<rparr>)"
proof -
  let ?f = "\<lambda>column. calc_column_mean order data column"
  have "fst (comprehension ?f (range_py (shape1 data)) w)
        = Inr (map (\<lambda>c. column_mean order w data (nat c)) (range_py (shape1 data)))
      \<and> mem (snd (comprehension ?f (range_py (shape1 data)) w)) = mem w
      \<and> snd (comprehension ?f (range_py (shape1 data)) w)
        = fold (\<lambda>x s. snd (?f x s)) (range_py (shape1 data)) w"
  proof (rule comprehension_inv [where I = "\<lambda>s::world. mem s = mem w"])
    fix x and s :: world assume x: "x \<in> set (range_py (shape1 data))" and s: "mem s = mem w"
    then obtain j where j: "j < shape1 data" "x = int j" by (auto simp: range_py_def)
    show "fst (calc_column_mean order data x s) = Inr (column_mean order w data (nat x))
        \<and> mem (snd (calc_column_mean order data x s)) = mem w"
      using j s by (simp add: fst_calc_column_mean mem_calc_column_mean
          column_mean_mem [of s w])
  qed simp
  then show ?thesis
    by (simp add: column_means_serial_def prod_eq_iff range_py_def comp_def fold_calls
        flip: range_py_def) (simp add: range_py_def fold_calls)
qed

lemma mem_column_means_serial: "mem (snd (column_means_serial order data w)) = mem w"
  by (simp add: serial_result)

lemma serial_mem:
  "mem v = mem w \<Longrightarrow>
   fst (column_means_serial order data v)
     = Inr (map (column_mean order w data) [0..<shape1 data])"
  by (simp add: serial_result column_mean_mem [of v w])

subsection \<open>The worker pool\<close>

lemma run_queue_inv:
  assumes "\<And>i t w. (i, t) \<in> set q \<Longrightarrow> I w \<Longrightarrow> fst (t w) = g i \<and> I (snd (t w))"
    and "I w"
  shows "fst (run_queue q w) = map (\<lambda>(i, t). (i, g i)) q \<and> I (snd (run_queue q w))"
  using assms
proof (induction q arbitrary: w)
  case Nil
  then show ?case by simp
next
  case (Cons job q)
  obtain i t where job: "job = (i, t)" by (cases job)
  obtain r w1 where tw: "t w = (r, w1)" by (cases "t w")
  from Cons.prems(1) [of i t w] Cons.prems(2) job tw have r: "r = g i" and I1: "I w1" by auto
  have "fst (run_queue q w1) = map (\<lambda>(i, t). (i, g i)) q \<and> I (snd (run_queue q w1))"
    by (rule Cons.IH) (use Cons.prems(1) I1 in auto)
  then show ?case
    by (cases "run_queue q w1") (simp add: job tw r)
qed

lemma map_of_graph:
  assumes "\<And>k v. (k, v) \<in> set xs \<Longrightarrow> v = g k" and "i \<in> fst ` set xs"
  shows "map_of xs i = Some (g i)"
proof -
  from assms(2) obtain v where "map_of xs i = Some v"
    by (cases "map_of xs i") (auto simp: map_of_eq_None_iff)
  moreover from this have "(i, v) \<in> set xs" by (rule map_of_SomeD)
  ultimately show ?thesis using assms(1) by simp
qed

lemma fold_slots_length: "length (fold (\<lambda>i s. s[i := h i]) is s) = length s"
  by (induction "is" arbitrary: s) simp_all

lemma fold_slots_nth:
  "i \<in> set is \<Longrightarrow> i < length s \<Longrightarrow> fold (\<lambda>i s. s[i := h i]) is s ! i = h i"
proof (induction "is" arbitrary: s rule: rev_induct)
  case Nil
  then show ?case by simp
next
  case (snoc j js)
  show ?case
  proof (cases "i = j")
    case True
    with snoc.prems show ?thesis by (simp add: fold_slots_length)
  next
    case False
    with snoc show ?thesis by (simp add: fold_slots_length)
  qed
qed

lemma fold_slots_all:
  assumes "valid_schedule sched n"
  shows "fold (\<lambda>i s. s[i := h i]) (arrival sched) (replicate n None) = map h [0..<n]"
proof (rule nth_equalityI)
  show "length (fold (\<lambda>i s. s[i := h i]) (arrival sched) (replicate n None)) = length (map h [0..<n])"
    by (simp add: fold_slots_length)
next
  fix i assume "i < length (fold (\<lambda>i s. s[i := h i]) (arrival sched) (replicate n None))"
  then have i: "i < n" by (simp add: fold_slots_length)
  with assms have "i \<in> set (arrival sched)"
    by (simp add: valid_schedule_def list_all_iff)
  with i show "fold (\<lambda>i s. s[i := h i]) (arrival sched) (replicate n None) ! i = map h [0..<n] ! i"
    by (simp add: fold_slots_nth)
qed

lemma collect_all: "collect (map (\<lambda>i. Some (Inr (v i))) xs) = Inr (map v xs)"
  by (induction xs) simp_all

lemma Parallel_inv:
  assumes W: "0 < n_jobs"
    and sched: "valid_schedule sched (length tasks)"
    and tasks: "\<And>i w'. i < length tasks \<Longrightarrow> I w' \<Longrightarrow>
                   fst ((tasks ! i) w') = Inr (v i) \<and> I (snd ((tasks ! i) w'))"
    and w: "I w"
  shows "fst (Parallel n_jobs sched tasks w) = Inr (map v [0..<length tasks])"
proof -
  let ?jobs = "enumerate 0 tasks"
  let ?q = "\<lambda>k. filter (\<lambda>(i, t). worker_of sched i mod n_jobs = k) ?jobs"
  let ?runs = "map (\<lambda>k. run_queue (?q k) w) [0..<n_jobs]"
  let ?finished = "concat (map fst ?runs)"
  have run: "fst (run_queue (?q k) w) = map (\<lambda>(i, t). (i, Inr (v i))) (?q k)" for k
  proof -
    have "fst (run_queue (?q k) w) = map (\<lambda>(i, t). (i, Inr (v i))) (?q k) \<and> I (snd (run_queue (?q k) w))"
    proof (rule run_queue_inv [where I = I])
      fix i t w' assume "(i, t) \<in> set (?q k)" and "I w'"
      then show "fst (t w') = Inr (v i) \<and> I (snd (t w'))"
        using tasks [of i w'] by (auto simp: in_set_enumerate_eq)
    qed (rule w)
    then show ?thesis ..
  qed
  have graph: "r = Inr (v i)" if "(i, r) \<in> set ?finished" for i r
    using that by (auto simp: run)
  have dom: "i \<in> fst ` set ?finished" if "i < length tasks" for i
  proof -
    let ?k = "worker_of sched i mod n_jobs"
    have "(i, tasks ! i) \<in> set (?q ?k)"
      using that by (simp add: in_set_enumerate_eq)
    then have "(i, Inr (v i)) \<in> set (fst (run_queue (?q ?k) w))"
      unfolding run by force
    moreover have "?k < n_jobs" using W by simp
    ultimately have "(i, Inr (v i)) \<in> set ?finished"
      by (auto intro!: bexI [of _ ?k])
    then show ?thesis by force
  qed
  have slot: "map_of ?finished i = Some (Inr (v i))" if "i < length tasks" for i
    by (rule map_of_graph) (use graph dom that in auto)
  have "fold (\<lambda>i s. s[i := map_of ?finished i]) (arrival sched) (replicate (length tasks) None)
        = map (\<lambda>i. map_of ?finished i) [0..<length tasks]"
    by (rule fold_slots_all [OF sched])
  also have "\<dots> = map (\<lambda>i. Some (Inr (v i))) [0..<length tasks]"
    by (rule map_cong) (use slot in auto)
  finally show ?thesis
    using W by (simp add: Parallel_def Let_def collect_all)
qed

lemma parallel_result:
  assumes "0 < n_jobs" and "valid_schedule sched (shape1 data)"
  shows "fst (column_means_parallel n_jobs sched order data w)
         = Inr (map (column_mean order w data) [0..<shape1 data])"
proof -
  let ?tasks = "map (\<lambda>col. delayed (calc_column_mean order) data col) (range_py (shape1 data))"
  have len: "length ?tasks = shape1 data" by (simp add: range_py_def)
  have "fst (Parallel n_jobs sched ?tasks w)
          = Inr (map (column_mean order w data) [0..<length ?tasks])"
  proof (rule Parallel_inv [where I = "\<lambda>s::world. mem s = mem w"])
    fix i and w' :: world assume "i < length ?tasks" and w': "mem w' = mem w"
    then have i: "i < shape1 data" by (simp add: range_py_def)
    then have "?tasks ! i = calc_column_mean order data (int i)"
      by (simp add: range_py_def delayed_def)
    then show "fst ((?tasks ! i) w') = Inr (column_mean order w data i)
        \<and> mem (snd ((?tasks ! i) w')) = mem w"
      using i w' by (simp add: fst_calc_column_mean mem_calc_column_mean
          column_mean_mem [of w' w])
  qed (use assms len in simp_all)
  then show ?thesis by (simp add: column_means_parallel_def range_py_def)
qed

lemma Parallel_mem: "mem (snd (Parallel n_jobs sched tasks w)) = mem w"
  by (simp add: Parallel_def Let_def)

lemma mem_column_means_parallel:
  "mem (snd (column_means_parallel n_jobs sched order data w)) = mem w"
  by (simp add: column_means_parallel_def Parallel_mem)

lemma parallel_mem:
  "mem v = mem w \<Longrightarrow> 0 < k \<Longrightarrow> valid_schedule s (shape1 data) \<Longrightarrow>
   fst (column_means_parallel k s order data v)
     = Inr (map (column_mean order w data) [0..<shape1 data])"
  by (simp add: parallel_result column_mean_mem [of v w])

subsection \<open>The three runs\<close>

lemma mem_print: "mem (print s w) = mem w"
  by (simp add: print_def)

lemma mem_report: "mem (report label start stop w) = mem w"
  by (simp add: report_def mem_print)

lemma cell_serial_result:
  "cell_serial order data w =
     (Inr (map (column_mean order w data) [0..<shape1 data]),
      report ''1 Processor'' (now w) (now w + real (shape1 data) * (1 / 100))
        (snd (column_means_serial order data w)))"
  by (simp add: cell_serial_def serial_result time_time_def)

lemma fst_cell_serial:
  "fst (cell_serial order data v) = fst (column_means_serial order data v)"
  by (simp add: cell_serial_result serial_result)

lemma mem_cell_serial: "mem (snd (cell_serial order data w)) = mem w"
  by (simp add: cell_serial_result mem_report mem_column_means_serial)

lemma cell_parallel_2_cases:
  "cell_parallel_2 sched order data w =
     (case column_means_parallel 2 sched order data w of
        (Inl e, w1) \<Rightarrow> (Inl e, w1)
      | (Inr ms, w1) \<Rightarrow> (Inr ms, report ''2 Processors'' (now w) (now w1) w1))"
  by (simp add: cell_parallel_2_def time_time_def split: prod.splits sum.splits)

lemma cell_parallel_10_cases:
  "cell_parallel_10 sched order data w =
     (case column_means_parallel 10 sched order data w of
        (Inl e, w1) \<Rightarrow> (Inl e, w1)
      | (Inr ms, w1) \<Rightarrow> (Inr ms, report ''2 Processors'' (now w) (now w1) w1))"
  by (simp add: cell_parallel_10_def time_time_def split: prod.splits sum.splits)

lemma fst_cell_parallel_2:
  "fst (cell_parallel_2 sched order data w) = fst (column_means_parallel 2 sched order data w)"
  by (simp add: cell_parallel_2_cases split: prod.splits sum.splits)

lemma fst_cell_parallel_10:
  "fst (cell_parallel_10 sched order data w) = fst (column_means_parallel 10 sched order data w)"
  by (simp add: cell_parallel_10_cases split: prod.splits sum.splits)

lemma mem_cell_parallel_2: "mem (snd (cell_parallel_2 sched order data w)) = mem w"
  using mem_column_means_parallel [of 2 sched order data w]
  by (auto simp: cell_parallel_2_cases mem_report split: prod.splits sum.splits)

lemma mem_cell_parallel_10: "mem (snd (cell_parallel_10 sched order data w)) = mem w"
  using mem_column_means_parallel [of 10 sched order data w]
  by (auto simp: cell_parallel_10_cases mem_report split: prod.splits sum.splits)

subsection \<open>The float64 mean of a column\<close>

lemma reduce_nil: "reduce t [] = Num 0"
  by (induction t) (simp_all add: rnd_0)

lemma true_divide_Num:
  assumes "0 < n" and "n \<le> 2 ^ 53"
  shows "true_divide x n = (case x of Num s \<Rightarrow> rnd (s / real n) | _ \<Rightarrow> x)"
  using assms by (simp add: true_divide_def rnd_nat_exact split: npfloat.splits)

lemma column_mean_empty: "shape0 data = 0 \<Longrightarrow> column_mean order w data j = NaN"
  by (simp add: column_mean_def reduce_nil true_divide_def rnd_0)

lemma column_mean_error:
  assumes n: "0 < shape0 data" "shape0 data \<le> 2 ^ 53"
    and plan: "valid_plan (order (shape0 data)) (shape0 data)"
    and entries: "\<And>i. i < shape0 data \<Longrightarrow>
                    getitem2 w data i j = Num (a i) \<and> rnd (a i) = Num (a i)"
    and m: "column_mean order w data j = Num m"
  shows "\<bar>m - arithmetic_mean a (shape0 data)\<bar>
           \<le> ((1 + 1 / 2 ^ 53) ^ (additions (order (shape0 data)) + 1) - 1)
               * ((\<Sum>i<shape0 data. \<bar>a i\<bar>) / real (shape0 data))
             + power_int 2 (- 1075)"
proof -
  define R where "R = shape0 data"
  define t where "t = order R"
  define xs where "xs = map (\<lambda>i. getitem2 w data i j) [0..<R]"
  have len: "length xs = R" by (simp add: xs_def)
  have xs: "xs ! i = Num (a i) \<and> rnd (a i) = Num (a i)" if "i < length xs" for i
    using that entries [of i] by (simp add: xs_def R_def)
  have its: "set (items t) \<subseteq> {..<length xs}"
    using valid_plan_set [OF plan] by (simp add: len t_def R_def)
  from m have "true_divide (reduce t xs) R = Num m"
    by (simp add: column_mean_def xs_def t_def R_def)
  then obtain s where s: "reduce t xs = Num s" and q: "rnd (s / real R) = Num m"
    using n by (auto simp: true_divide_Num R_def split: npfloat.splits)
  have S: "sum_list (map a (items t)) = (\<Sum>i<R. a i)"
    and A: "sum_list (map (\<lambda>i. \<bar>a i\<bar>) (items t)) = (\<Sum>i<R. \<bar>a i\<bar>)"
    using plan by (simp_all add: valid_plan_sum t_def R_def)
  have E: "\<bar>s - (\<Sum>i<R. a i)\<bar> \<le> ((1 + 1 / 2 ^ 53) ^ additions t - 1) * (\<Sum>i<R. \<bar>a i\<bar>)"
    using reduce_error [of xs a t s, OF xs its s] unfolding S A by blast
  have e: "\<bar>m - s / real R\<bar> \<le> \<bar>s / real R\<bar> * (1 / 2 ^ 53) + power_int 2 (- 1075)"
    using rnd_error [OF q] by simp
  have "\<bar>m - (\<Sum>i<R. a i) / real R\<bar>
      \<le> ((1 + 1 / 2 ^ 53) ^ (additions t + 1) - 1) * ((\<Sum>i<R. \<bar>a i\<bar>) / real R)
        + power_int 2 (- 1075)"
    by (rule div_step [OF _ _ E _ e]) (use n in \<open>simp_all add: R_def sum_abs\<close>)
  then show ?thesis by (simp only: arithmetic_mean_def R_def t_def)
qed

lemma abs_divide_le:
  fixes s r :: real
  assumes "1 \<le> r"
  shows "\<bar>s / r\<bar> \<le> \<bar>s\<bar>"
proof -
  have "\<bar>s\<bar> / r \<le> \<bar>s\<bar> / 1"
    using assms by (intro divide_left_mono) simp_all
  with assms show ?thesis by simp
qed

lemma column_mean_finite:
  assumes n: "0 < shape0 data" "shape0 data \<le> 2 ^ 53"
    and plan: "valid_plan (order (shape0 data)) (shape0 data)"
    and entries: "\<And>i. i < shape0 data \<Longrightarrow>
                    getitem2 w data i j = Num (a i) \<and> rnd (a i) = Num (a i)"
    and small: "(1 + 1 / 2 ^ 53) ^ additions (order (shape0 data)) * (\<Sum>i<shape0 data. \<bar>a i\<bar>)
                  \<le> max_float"
  shows "\<exists>m. column_mean order w data j = Num m"
proof -
  define R where "R = shape0 data"
  define t where "t = order R"
  define xs where "xs = map (\<lambda>i. getitem2 w data i j) [0..<R]"
  have len: "length xs = R" by (simp add: xs_def)
  have xs: "xs ! i = Num (a i) \<and> rnd (a i) = Num (a i)" if "i < length xs" for i
    using that entries [of i] by (simp add: xs_def R_def)
  have its: "set (items t) \<subseteq> {..<length xs}"
    using valid_plan_set [OF plan] by (simp add: len t_def R_def)
  have A: "sum_list (map (\<lambda>i. \<bar>a i\<bar>) (items t)) = (\<Sum>i<R. \<bar>a i\<bar>)"
    using plan by (simp add: valid_plan_sum t_def R_def)
  from small have "(1 + 1 / 2 ^ 53) ^ additions t * sum_list (map (\<lambda>i. \<bar>a i\<bar>) (items t)) \<le> max_float"
    unfolding A by (simp only: t_def R_def)
  then obtain s where s: "reduce t xs = Num s"
    and b: "\<bar>s\<bar> \<le> (1 + 1 / 2 ^ 53) ^ additions t * sum_list (map (\<lambda>i. \<bar>a i\<bar>) (items t))"
    using reduce_finite [of xs a t, OF xs its] by blast
  from small have "(1 + 1 / 2 ^ 53) ^ additions t * (\<Sum>i<R. \<bar>a i\<bar>) \<le> max_float"
    by (simp only: t_def R_def)
  with b have sm: "\<bar>s\<bar> \<le> max_float" unfolding A by linarith
  have "1 \<le> real R" using n by (simp add: R_def)
  then have "\<bar>s / real R\<bar> \<le> \<bar>s\<bar>" by (rule abs_divide_le)
  with sm have "\<bar>s / real R\<bar> \<le> max_float" by linarith
  then obtain m where "rnd (s / real R) = Num m" using rnd_finite by blast
  then have "column_mean order w data j = Num m"
    using n s by (simp add: column_mean_def true_divide_Num xs_def t_def R_def)
  then show ?thesis ..
qed

subsection \<open>The concrete matrices and schedules\<close>

lemma data23_simps: "ptr data23 = 0" "shape0 data23 = 2" "shape1 data23 = 3"
  by (simp_all add: data23_def)

lemma world23_simps: "now world23 = 5" "stdout world23 = []" "calls world23 = []"
  "mem world23 a = Num (if a = 0 then 1 else if a = 1 then 2 else if a = 2 then 3
                 else if a = 3 then 5 else if a = 4 then 8 else if a = 5 then 13 else 0)"
  by (simp_all add: world23_def)

lemma world23b_simps: "mem world23b a = (if a = 1 then Num 2 else if a = 4 then Num 8 else NaN)"
  by (simp add: world23b_def)

lemma rnd_numeral: "numeral k \<le> (2::nat) ^ 53 \<Longrightarrow> rnd (numeral k) = Num (numeral k)"
  using rnd_nat_exact [of "numeral k"] by simp

lemma rnd_1: "rnd 1 = Num 1"
  using rnd_nat_exact [of 1] by simp

lemma upt_2: "[0..<2] = [0, Suc 0]"
  by (simp add: numeral_2_eq_2)

lemma sequential_2: "sequential 2 = Plus (Plus Zero (Item 0)) (Item (Suc 0))"
  by (simp add: sequential_def numeral_2_eq_2)

lemma valid_plan_sequential_2: "valid_plan (sequential 2) 2"
  by (simp add: valid_plan_def sequential_2 upt_2)

lemma additions_sequential_2: "additions (sequential 2) = 2"
  by (simp add: sequential_2)

lemma upt_3: "[0..<3] = [0, Suc 0, 2]"
  by (simp add: numeral_3_eq_3 numeral_2_eq_2)

lemma column_mean_23:
  "column_mean sequential world23 data23 0 = Num 3"
  "column_mean sequential world23 data23 (Suc 0) = Num 5"
  "column_mean sequential world23 data23 2 = Num 8"
  by (simp_all add: column_mean_def data23_simps sequential_2 upt_2 getitem2_def world23_simps
      rnd_numeral rnd_1 true_divide_Num)

lemma getitem2_23:
  "getitem2 world23 data23 0 (Suc 0) = Num 2" "getitem2 world23 data23 (Suc 0) (Suc 0) = Num 8"
  "getitem2 world23b data23 0 (Suc 0) = Num 2" "getitem2 world23b data23 (Suc 0) (Suc 0) = Num 8"
  by (simp_all add: getitem2_def data23_simps world23_simps world23b_simps)

lemma valid_schedules:
  "valid_schedule sched23 (shape1 data23)" "valid_schedule sched23b (shape1 data23)"
  "valid_schedule sched0 (shape1 data20)" "valid_schedule sched1 (shape1 data21)"
  by (simp_all add: valid_schedule_def sched23_def sched23b_def sched0_def sched1_def
      data23_simps data20_def data21_def upt_rec)

lemma serial_23:
  "fst (column_means_serial sequential data23 world23) = Inr [Num 3, Num 5, Num 8]"
  by (simp add: serial_result data23_simps column_mean_23 upt_3)

lemma data_big_simps: "ptr data_big = 0" "shape0 data_big = 2" "shape1 data_big = 1"
  by (simp_all add: data_big_def)

lemma column_mean_big: "column_mean sequential world_big data_big 0 = PInf"
proof -
  have M: "rnd (2 ^ 1023) = Num (2 ^ 1023)"
    using rnd_power_int [of 1023] by (simp only: power_int_numeral)
  have "(2::real) ^ 1024 = 2 ^ 1023 + 2 ^ 1023"
    by (simp only: power_Suc [of "2::real", symmetric] mult_2 [symmetric]) simp
  then have "(2::real) ^ 1024 \<le> 2 ^ 1023 + 2 ^ 1023" by simp
  then have O: "rnd (2 ^ 1023 + 2 ^ 1023) = PInf" by (rule rnd_overflow)
  have O': "rnd (2 * 2 ^ 1023) = PInf" using O by (simp only: mult_2)
  have "reduce (sequential 2) [Num (2 ^ 1023), Num (2 ^ 1023)] = PInf"
    by (simp add: sequential_2 M O' del: power_numeral)
  moreover have "map (\<lambda>i. getitem2 world_big data_big i 0) [0..<shape0 data_big]
      = [Num (2 ^ 1023), Num (2 ^ 1023)]"
    by (simp add: data_big_simps upt_2 getitem2_def world_big_def del: power_numeral)
  moreover have "true_divide PInf 2 = PInf" by (simp add: true_divide_Num)
  ultimately show ?thesis
    by (simp add: column_mean_def data_big_simps del: power_numeral)
qed

lemma now_calc_column_mean:
  "now (snd (calc_column_mean order data column w)) = now w + 1 / 100"
  by (simp add: calc_column_mean_def time_sleep_def Let_def split: sum.splits)

lemma now_run_queue:
  assumes "\<And>i t s. (i, t) \<in> set q \<Longrightarrow> now (snd (t s)) = now s + d"
  shows "now (snd (run_queue q w)) = now w + real (length q) * d"
  using assms
proof (induction q arbitrary: w)
  case Nil
  show ?case by simp
next
  case (Cons p q)
  obtain i t where p: "p = (i, t)" by (cases p)
  obtain r w1 where t: "t w = (r, w1)" by (cases "t w")
  obtain rs w2 where q: "run_queue q w1 = (rs, w2)" by (cases "run_queue q w1")
  have "now w1 = now w + d" using Cons.prems [of i t w] p t by simp
  moreover have "now (snd (run_queue q w1)) = now w1 + real (length q) * d"
  proof (rule Cons.IH)
    fix i t and s :: world
    assume "(i, t) \<in> set q"
    then have "(i, t) \<in> set (p # q)" by simp
    then show "now (snd (t s)) = now s + d" by (rule Cons.prems)
  qed
  then have "now w2 = now w1 + real (length q) * d"
    using q by simp
  ultimately show ?case by (simp add: p t q algebra_simps)
qed

lemma length_filter_enumerate:
  "length (filter (\<lambda>(i, t). P i) (enumerate n xs)) = length (filter P [n..<n + length xs])"
proof -
  have e: "(\<lambda>(i, t). P i) = P \<circ> fst" by (auto simp: fun_eq_iff)
  have "length (filter P (map fst (enumerate n xs)))
      = length (map fst (filter (P \<circ> fst) (enumerate n xs)))"
    by (simp only: filter_map)
  then show ?thesis by (simp add: e)
qed

lemma now_column_means_parallel:
  assumes "0 < n_jobs"
  shows "now (snd (column_means_parallel n_jobs sched order data w))
    = fold max
        (map (\<lambda>k. now w
            + real (length (filter (\<lambda>i. worker_of sched i mod n_jobs = k) [0..<shape1 data]))
              * (1 / 100)) [0..<n_jobs])
        (now w)"
proof -
  let ?tasks = "map (\<lambda>col. delayed (calc_column_mean order) data col) (range_py (shape1 data))"
  have q: "now (snd (run_queue (filter (\<lambda>(i, t). worker_of sched i mod n_jobs = k)
                (enumerate 0 ?tasks)) w))
      = now w + real (length (filter (\<lambda>i. worker_of sched i mod n_jobs = k) [0..<shape1 data]))
              * (1 / 100)" for k
  proof -
    have "now (snd (run_queue (filter (\<lambda>(i, t). worker_of sched i mod n_jobs = k)
                (enumerate 0 ?tasks)) w))
      = now w + real (length (filter (\<lambda>(i, t). worker_of sched i mod n_jobs = k)
                (enumerate 0 ?tasks))) * (1 / 100)"
    proof (rule now_run_queue)
      fix i t and s :: world
      assume "(i, t) \<in> set (filter (\<lambda>(i, t). worker_of sched i mod n_jobs = k)
                (enumerate 0 ?tasks))"
      then have "t \<in> set ?tasks" by (auto simp: in_set_enumerate_eq)
      then obtain col where "t = delayed (calc_column_mean order) data col" by auto
      then show "now (snd (t s)) = now s + 1 / 100"
        by (simp add: delayed_def now_calc_column_mean)
    qed
    also have "length (filter (\<lambda>(i, t). worker_of sched i mod n_jobs = k) (enumerate 0 ?tasks))
        = length (filter (\<lambda>i. worker_of sched i mod n_jobs = k) [0..<shape1 data])"
      by (simp add: length_filter_enumerate range_py_def)
    finally show ?thesis .
  qed
  show ?thesis
    using assms
    by (simp add: column_means_parallel_def Parallel_def Let_def comp_def q)
qed

lemma upt_10: "[0..<10] = [0, 1, 2, 3, 4, 5, 6, 7, 8, 9]"
  by (simp add: upt_conv_Cons)

lemma now_parallel_10_23:
  "now (snd (column_means_parallel 10 sched23 sequential data23 world23)) - now world23 = 1 / 100"
  by (simp add: now_column_means_parallel data23_simps upt_3 upt_10 sched23_def world23_simps)

lemma format_2f_hundredth: "format_2f (1 / 100) = ''0.01''"
  by code_simp

lemma getitem2_big:
  "getitem2 world_big data_big i j = Num (2 ^ 1023)"
  by (simp add: getitem2_def world_big_def del: power_numeral)

lemma sum_lessThan_2: "(\<Sum>i<(2::nat). f i) = f 0 + f 1"
  by (simp add: lessThan_Suc numeral_2_eq_2 ac_simps)

lemma small_sum_finite: "(1 + 1 / 2 ^ 53) ^ 2 * (10::real) \<le> max_float"
proof -
  have "(1 + 1 / 2 ^ 53) \<le> (2::real)" by simp
  then have "(1 + 1 / 2 ^ 53) ^ 2 \<le> (2::real) ^ 2" by (rule power_mono) simp
  then have "(1 + 1 / 2 ^ 53) ^ 2 * (10::real) \<le> 2 ^ 2 * 10" by (rule mult_right_mono) simp
  also have "(2::real) ^ 2 * 10 \<le> 2 ^ 6" by simp
  finally have "(1 + 1 / 2 ^ 53) ^ 2 * (10::real) \<le> 2 ^ 6" .
  also have "(2::real) ^ 6 \<le> 2 ^ 1023" by (rule power_increasing) simp_all
  also note max_float_ge
  finally show ?thesis .
qed

lemma three_way:
  assumes "r = (if P then Inr v else if Q then Inl OverflowError else Inl IndexError)"
  shows "(r = Inl IndexError) = (\<not> P \<and> \<not> Q)"
    and "(r = Inl OverflowError) = (\<not> P \<and> Q)"
    and "(\<exists>m. r = Inr m) = P"
  using assms by auto

lemma three_way_error:
  assumes "r = (if P then Inr v else if Q then Inl OverflowError else Inl IndexError)"
    and "r = Inl e"
  shows "e = IndexError \<or> e = OverflowError"
  using assms by (auto split: if_splits)

lemma outside_iff:
  "(\<not> (- int n \<le> c \<and> c < int n)) = (c < - int n \<or> int n \<le> c)"
  by auto

lemma comprehension_23_IndexError:
  "fst (comprehension (calc_column_mean sequential data23) [0, 5, 1] world23) = Inl IndexError"
  by (simp add: calc_column_mean_def Let_def getitem_col_cases data23_simps split: prod.splits)

lemma comprehension_23_OverflowError:
  "fst (comprehension (calc_column_mean sequential data23) [0, 2 ^ 63, 1] world23)
     = Inl OverflowError"
  by (simp add: calc_column_mean_def Let_def getitem_col_cases data23_simps split: prod.splits)

section \<open>The claims\<close>

text \<open>
  C1. For every matrix and every worker count \<open>W \<ge> 1\<close>, the list of column means a
  parallel run returns (\<open>Parallel\<close> with \<open>n_jobs = W\<close> over the column indices
  \<open>0..C-1\<close>) is the list the comprehension returns: the same values in the same
  column order, whatever the schedule of the pool. The same holds of the three cells of
  the notebook.
\<close>

theorem parallel_equals_serial:
  assumes "0 < n_jobs" and "valid_schedule sched (shape1 data)"
  shows "fst (column_means_parallel n_jobs sched order data w)
           = fst (column_means_serial order data w)
    \<and> fst (cell_parallel_2 sched order data w) = fst (cell_serial order data w)
    \<and> fst (cell_parallel_10 sched order data w) = fst (cell_serial order data w)"
  using assms
  by (simp add: parallel_result serial_result cell_serial_result fst_cell_parallel_2
      fst_cell_parallel_10)

theorem parallel_equals_serial_witness:
  "(0::nat) < 2 \<and> valid_schedule sched23 (shape1 data23)
   \<and> fst (column_means_parallel 2 sched23 sequential data23 world23)
       = Inr [Num 3, Num 5, Num 8]
   \<and> fst (column_means_serial sequential data23 world23) = Inr [Num 3, Num 5, Num 8]
   \<and> fst (cell_parallel_10 sched23 sequential data23 world23)
       = fst (cell_serial sequential data23 world23)"
  using parallel_equals_serial [of 2 sched23 data23 sequential world23] valid_schedules(1)
    serial_23
  by simp

text \<open>
  C2, as the code has it. For every matrix with at least one column and every column
  index inside \<open>[0, column_count)\<close>, \<open>calc_column_mean(data, column)\<close> returns the float64
  mean of that column: the float64 sum of its entries divided in float64 by the row
  count, \<open>nan\<close> when there is no row. When the entries are finite, the row count is at
  most \<open>2^53\<close> and the summation adds each entry once, a finite result is the arithmetic
  mean up to rounding: it differs from it by at most
  \<open>((1 + 2^-53)^(k+1) - 1) * (\<Sum>|entries|) / rows + 2^-1075\<close>, \<open>k\<close> the number of additions;
  and the result is finite when \<open>(1 + 2^-53)^k * \<Sum>|entries|\<close> does not exceed the largest
  float64.
\<close>

theorem calc_column_mean_float_mean:
  assumes "0 \<le> column" and "column < int (shape1 data)"
  shows "fst (calc_column_mean order data column w)
           = Inr (column_mean order w data (nat column))
    \<and> (shape0 data = 0 \<longrightarrow> fst (calc_column_mean order data column w) = Inr NaN)
    \<and> (0 < shape0 data \<and> shape0 data \<le> 2 ^ 53
        \<and> valid_plan (order (shape0 data)) (shape0 data)
        \<and> (\<forall>i<shape0 data.
              getitem2 w data i (nat column) = Num (a i) \<and> rnd (a i) = Num (a i)) \<longrightarrow>
          (\<forall>m. fst (calc_column_mean order data column w) = Inr (Num m) \<longrightarrow>
             \<bar>m - arithmetic_mean a (shape0 data)\<bar>
               \<le> ((1 + 1 / 2 ^ 53) ^ (additions (order (shape0 data)) + 1) - 1)
                   * ((\<Sum>i<shape0 data. \<bar>a i\<bar>) / real (shape0 data))
                 + power_int 2 (- 1075))
          \<and> ((1 + 1 / 2 ^ 53) ^ additions (order (shape0 data)) * (\<Sum>i<shape0 data. \<bar>a i\<bar>)
                \<le> max_float \<longrightarrow>
              (\<exists>m. fst (calc_column_mean order data column w) = Inr (Num m))))"
proof -
  have r: "fst (calc_column_mean order data column w)
           = Inr (column_mean order w data (nat column))"
    using assms by (rule fst_calc_column_mean_int)
  show ?thesis
    unfolding r
  proof (intro conjI impI allI)
    show "Inr (column_mean order w data (nat column)) = Inr (column_mean order w data (nat column))" ..
  next
    assume "shape0 data = 0"
    then show "(Inr (column_mean order w data (nat column)) :: error + npfloat) = Inr NaN"
      by (simp add: column_mean_empty)
  next
    fix m
    assume h: "0 < shape0 data \<and> shape0 data \<le> 2 ^ 53
        \<and> valid_plan (order (shape0 data)) (shape0 data)
        \<and> (\<forall>i<shape0 data.
              getitem2 w data i (nat column) = Num (a i) \<and> rnd (a i) = Num (a i))"
      and m: "(Inr (column_mean order w data (nat column)) :: error + npfloat) = Inr (Num m)"
    show "\<bar>m - arithmetic_mean a (shape0 data)\<bar>
               \<le> ((1 + 1 / 2 ^ 53) ^ (additions (order (shape0 data)) + 1) - 1)
                   * ((\<Sum>i<shape0 data. \<bar>a i\<bar>) / real (shape0 data))
                 + power_int 2 (- 1075)"
      by (rule column_mean_error [where w = w and j = "nat column"]) (use h m in simp_all)
  next
    assume h: "0 < shape0 data \<and> shape0 data \<le> 2 ^ 53
        \<and> valid_plan (order (shape0 data)) (shape0 data)
        \<and> (\<forall>i<shape0 data.
              getitem2 w data i (nat column) = Num (a i) \<and> rnd (a i) = Num (a i))"
      and s: "(1 + 1 / 2 ^ 53) ^ additions (order (shape0 data)) * (\<Sum>i<shape0 data. \<bar>a i\<bar>)
                \<le> max_float"
    have "\<exists>m. column_mean order w data (nat column) = Num m"
      by (rule column_mean_finite [where a = a]) (use h s in simp_all)
    then show "\<exists>m. (Inr (column_mean order w data (nat column)) :: error + npfloat) = Inr (Num m)"
      by simp
  qed
qed

theorem calc_column_mean_float_mean_witness:
  "(0::int) \<le> 1 \<and> (1::int) < int (shape1 data23)
   \<and> 0 < shape0 data23 \<and> shape0 data23 \<le> 2 ^ 53
   \<and> valid_plan (sequential (shape0 data23)) (shape0 data23)
   \<and> getitem2 world23 data23 0 (nat 1) = Num 2 \<and> rnd 2 = Num 2
   \<and> getitem2 world23 data23 1 (nat 1) = Num 8 \<and> rnd 8 = Num 8
   \<and> (1 + 1 / 2 ^ 53) ^ additions (sequential (shape0 data23)) * (2 + 8) \<le> max_float
   \<and> fst (calc_column_mean sequential data23 1 world23) = Inr (Num 5)
   \<and> arithmetic_mean (\<lambda>i. if i = 0 then 2 else 8) (shape0 data23) = 5
   \<and> \<bar>5 - arithmetic_mean (\<lambda>i. if i = 0 then 2 else 8) (shape0 data23)\<bar>
       \<le> ((1 + 1 / 2 ^ 53) ^ (additions (sequential (shape0 data23)) + 1) - 1)
           * ((\<Sum>i<shape0 data23. \<bar>if i = 0 then 2 else 8 :: real\<bar>) / real (shape0 data23))
         + power_int 2 (- 1075)"
proof -
  let ?a = "\<lambda>i::nat. if i = 0 then 2 else 8 :: real"
  have r2: "rnd 2 = Num 2" and r8: "rnd 8 = Num 8" by (simp_all add: rnd_numeral)
  have entries: "\<forall>i<shape0 data23.
      getitem2 world23 data23 i (nat 1) = Num (?a i) \<and> rnd (?a i) = Num (?a i)"
    by (simp add: data23_simps less_Suc_eq numeral_2_eq_2 getitem2_23 r2 r8)
  have res: "fst (calc_column_mean sequential data23 1 world23) = Inr (Num 5)"
    using fst_calc_column_mean [of 1 data23 sequential world23]
    by (simp add: data23_simps column_mean_23)
  have am: "arithmetic_mean ?a (shape0 data23) = 5"
    by (simp add: arithmetic_mean_def data23_simps sum_lessThan_2)
  have fin: "(1 + 1 / 2 ^ 53) ^ additions (sequential (shape0 data23)) * (2 + 8) \<le> max_float"
    using small_sum_finite by (simp add: data23_simps additions_sequential_2)
  have pre: "0 < shape0 data23 \<and> shape0 data23 \<le> 2 ^ 53
        \<and> valid_plan (sequential (shape0 data23)) (shape0 data23)
        \<and> (\<forall>i<shape0 data23.
              getitem2 world23 data23 i (nat 1) = Num (?a i) \<and> rnd (?a i) = Num (?a i))"
    using entries by (simp add: data23_simps valid_plan_sequential_2)
  have "\<bar>5 - arithmetic_mean ?a (shape0 data23)\<bar>
       \<le> ((1 + 1 / 2 ^ 53) ^ (additions (sequential (shape0 data23)) + 1) - 1)
           * ((\<Sum>i<shape0 data23. \<bar>?a i\<bar>) / real (shape0 data23))
         + power_int 2 (- 1075)"
    using calc_column_mean_float_mean [of 1 data23 sequential world23 ?a] pre res
    by (simp only: data23_simps) simp
  with pre res am fin r2 r8 show ?thesis
    by (simp add: data23_simps getitem2_23 del: power_numeral)
qed

text \<open>
  C2 as stated fails on a matrix of two rows whose column holds \<open>2^1023\<close> twice: the
  arithmetic mean is \<open>2^1023\<close>, a float64, and the float64 sum overflows, so the call
  returns \<open>inf\<close>.
\<close>

theorem calc_column_mean_float_mean_counterexample:
  "getitem2 world_big data_big 0 0 = Num (2 ^ 1023)
   \<and> getitem2 world_big data_big 1 0 = Num (2 ^ 1023)
   \<and> arithmetic_mean (\<lambda>i. 2 ^ 1023) (shape0 data_big) = 2 ^ 1023
   \<and> fst (calc_column_mean sequential data_big 0 world_big) = Inr PInf
   \<and> fst (calc_column_mean sequential data_big 0 world_big)
       \<noteq> Inr (Num (arithmetic_mean (\<lambda>i. 2 ^ 1023) (shape0 data_big)))"
proof -
  have "fst (calc_column_mean sequential data_big 0 world_big) = Inr PInf"
    using fst_calc_column_mean [of 0 data_big sequential world_big]
    by (simp add: data_big_simps column_mean_big)
  moreover have "arithmetic_mean (\<lambda>i. 2 ^ 1023) (shape0 data_big) = 2 ^ 1023"
    by (simp add: arithmetic_mean_def data_big_simps del: power_numeral)
  ultimately show ?thesis by (simp add: getitem2_big del: power_numeral)
qed

text \<open>
  C3, as the code has it. \<open>calc_column_mean(data, column)\<close> fails if and only if the
  column index lies outside \<open>[-column_count, column_count)\<close>: with OverflowError when the
  index is in \<open>[2^63, 2^64)\<close> and with IndexError, the bounds error, otherwise. For every
  index inside that range it returns a value. The failure is fatal: a comprehension
  that calls it on a list holding an index outside the range ends with one of the two
  errors and no list.
\<close>

theorem calc_column_mean_bounds:
  "(fst (calc_column_mean order data column w) = Inl IndexError)
     = ((column < - int (shape1 data) \<or> int (shape1 data) \<le> column)
        \<and> \<not> (2 ^ 63 \<le> column \<and> column < 2 ^ 64))
   \<and> (fst (calc_column_mean order data column w) = Inl OverflowError)
     = ((column < - int (shape1 data) \<or> int (shape1 data) \<le> column)
        \<and> 2 ^ 63 \<le> column \<and> column < 2 ^ 64)
   \<and> ((\<exists>m. fst (calc_column_mean order data column w) = Inr m)
     = (- int (shape1 data) \<le> column \<and> column < int (shape1 data)))
   \<and> ((\<exists>c\<in>set columns. c < - int (shape1 data) \<or> int (shape1 data) \<le> c) \<longrightarrow>
        (\<exists>e. fst (comprehension (calc_column_mean order data) columns w) = Inl e
             \<and> (e = IndexError \<or> e = OverflowError)))"
proof (intro conjI impI)
  note c = three_way [OF fst_calc_column_mean_cases [of order data column w]]
  show "(fst (calc_column_mean order data column w) = Inl IndexError)
     = ((column < - int (shape1 data) \<or> int (shape1 data) \<le> column)
        \<and> \<not> (2 ^ 63 \<le> column \<and> column < 2 ^ 64))"
    unfolding c(1) outside_iff ..
  show "(fst (calc_column_mean order data column w) = Inl OverflowError)
     = ((column < - int (shape1 data) \<or> int (shape1 data) \<le> column)
        \<and> 2 ^ 63 \<le> column \<and> column < 2 ^ 64)"
    unfolding c(2) outside_iff ..
  show "(\<exists>m. fst (calc_column_mean order data column w) = Inr m)
     = (- int (shape1 data) \<le> column \<and> column < int (shape1 data))"
    by (rule c(3))
next
  assume "\<exists>c\<in>set columns. c < - int (shape1 data) \<or> int (shape1 data) \<le> c"
  then obtain c where c: "c \<in> set columns"
    and out: "\<not> (- int (shape1 data) \<le> c \<and> c < int (shape1 data))"
    unfolding outside_iff by blast
  have "\<exists>e. fst (calc_column_mean order data c s) = Inl e" for s
    using three_way(3) [OF fst_calc_column_mean_cases [of order data c s]] out
    by (cases "fst (calc_column_mean order data c s)") auto
  with c have "\<exists>c\<in>set columns. \<forall>s. \<exists>e. fst (calc_column_mean order data c s) = Inl e"
    by blast
  then have "\<exists>e. fst (comprehension (calc_column_mean order data) columns w) = Inl e"
    by (rule comprehension_raises)
  then obtain e where e: "fst (comprehension (calc_column_mean order data) columns w) = Inl e" ..
  then have "\<exists>x\<in>set columns. \<exists>s'. fst (calc_column_mean order data x s') = Inl e"
    by (rule comprehension_error_from)
  then obtain c' s where f: "fst (calc_column_mean order data c' s) = Inl e" by blast
  have "e = IndexError \<or> e = OverflowError"
    using fst_calc_column_mean_cases [of order data c' s] f by (rule three_way_error)
  with e show "\<exists>e. fst (comprehension (calc_column_mean order data) columns w) = Inl e
             \<and> (e = IndexError \<or> e = OverflowError)"
    by blast
qed

theorem calc_column_mean_bounds_witness:
  "fst (calc_column_mean sequential data23 3 world23) = Inl IndexError
   \<and> fst (calc_column_mean sequential data23 (- 4) world23) = Inl IndexError
   \<and> fst (calc_column_mean sequential data23 (2 ^ 64) world23) = Inl IndexError
   \<and> fst (calc_column_mean sequential data23 (2 ^ 63) world23) = Inl OverflowError
   \<and> (\<exists>m. fst (calc_column_mean sequential data23 (- 3) world23) = Inr m)
   \<and> (5::int) \<in> set [0, 5, 1] \<and> int (shape1 data23) \<le> 5
   \<and> fst (comprehension (calc_column_mean sequential data23) [0, 5, 1] world23)
       = Inl IndexError
   \<and> fst (comprehension (calc_column_mean sequential data23) [0, 2 ^ 63, 1] world23)
       = Inl OverflowError"
  using calc_column_mean_bounds [of sequential data23 3 world23 "[0, 5, 1]"]
    calc_column_mean_bounds [of sequential data23 "- 4" world23 "[]"]
    calc_column_mean_bounds [of sequential data23 "2 ^ 64" world23 "[]"]
    calc_column_mean_bounds [of sequential data23 "2 ^ 63" world23 "[]"]
    calc_column_mean_bounds [of sequential data23 "- 3" world23 "[]"]
    comprehension_23_IndexError comprehension_23_OverflowError
  by (simp add: data23_simps)

text \<open>
  C3 as stated, with the range \<open>[0, column_count)\<close>, fails at the index \<open>-1\<close> of a
  matrix with three columns: the index is outside the range and the call raises nothing.
\<close>

theorem calc_column_mean_bounds_counterexample:
  "\<not> ((fst (calc_column_mean sequential data23 (- 1) world23) = Inl IndexError)
        \<longleftrightarrow> \<not> (0 \<le> (- 1 :: int) \<and> (- 1 :: int) < int (shape1 data23)))"
  by (simp add: fst_calc_column_mean_cases data23_simps)

text \<open>
  C4. What the third run writes to standard output, for every matrix and schedule: the
  line \<open>2 Processors\<close>, although the run has 10 workers, and then the line
  \<open>Elapsed computation tiem: <t> s\<close> with the elapsed seconds to two decimal places.
\<close>

theorem third_run_reports_two_processors:
  assumes "valid_schedule sched (shape1 data)"
  shows "stdout (snd (cell_parallel_10 sched order data w))
     = stdout w @ ''2 Processors'' @ [CHR 0x0A]
       @ ''Elapsed computation tiem: ''
       @ format_2f (now (snd (column_means_parallel 10 sched order data w)) - now w) @ '' s''
       @ [CHR 0x0A]"
proof -
  obtain r w1 where run: "column_means_parallel 10 sched order data w = (r, w1)"
    by (cases "column_means_parallel 10 sched order data w")
  from parallel_result [of 10 sched data order w] assms run
  have r: "r = Inr (map (column_mean order w data) [0..<shape1 data])" by simp
  have "stdout w1 = stdout w"
    using run by (auto simp: column_means_parallel_def Parallel_def Let_def)
  then show ?thesis
    by (simp add: cell_parallel_10_cases run r report_def print_def)
qed

theorem third_run_reports_two_processors_witness:
  "valid_schedule sched23 (shape1 data23)
   \<and> stdout (snd (cell_parallel_10 sched23 sequential data23 world23))
     = ''2 Processors'' @ [CHR 0x0A] @ ''Elapsed computation tiem: 0.01 s'' @ [CHR 0x0A]"
proof -
  note t = now_parallel_10_23 and f = format_2f_hundredth
  have e: "stdout (snd (cell_parallel_10 sched23 sequential data23 world23))
     = stdout world23 @ ''2 Processors'' @ [CHR 0x0A]
       @ ''Elapsed computation tiem: ''
       @ format_2f (now (snd (column_means_parallel 10 sched23 sequential data23 world23))
           - now world23)
       @ '' s'' @ [CHR 0x0A]"
    by (rule third_run_reports_two_processors [OF valid_schedules(1)])
  show ?thesis
    unfolding e t f by (simp add: world23_simps valid_schedules)
qed

text \<open>
  C5. For every matrix with \<open>C \<ge> 0\<close> columns and every worker count \<open>W \<ge> 1\<close>, the
  comprehension and the parallel run complete without error and return a list of
  length \<open>C\<close>; with \<open>C = 0\<close> the list is empty and with \<open>C = 1\<close> it has one element.
\<close>

theorem result_length:
  assumes "0 < n_jobs" and "valid_schedule sched (shape1 data)"
  shows "(\<exists>ms. fst (column_means_serial order data w) = Inr ms \<and> length ms = shape1 data)
    \<and> (\<exists>ms. fst (column_means_parallel n_jobs sched order data w) = Inr ms
           \<and> length ms = shape1 data)
    \<and> (shape1 data = 0 \<longrightarrow>
         fst (column_means_serial order data w) = Inr []
         \<and> fst (column_means_parallel n_jobs sched order data w) = Inr [])
    \<and> (shape1 data = 1 \<longrightarrow>
         (\<exists>m. fst (column_means_serial order data w) = Inr [m]
              \<and> fst (column_means_parallel n_jobs sched order data w) = Inr [m]))"
proof -
  let ?ms = "map (column_mean order w data) [0..<shape1 data]"
  have s: "fst (column_means_serial order data w) = Inr ?ms"
    by (simp add: serial_result)
  have p: "fst (column_means_parallel n_jobs sched order data w) = Inr ?ms"
    using assms by (rule parallel_result)
  have len: "length ?ms = shape1 data" by simp
  have one: "\<exists>m. ?ms = [m]" if "shape1 data = 1"
    using that by simp
  show ?thesis
    unfolding s p using len one by auto
qed

theorem result_length_witness:
  "(0::nat) < 2 \<and> valid_schedule sched23 (shape1 data23)
   \<and> (\<exists>ms. fst (column_means_serial sequential data23 world23) = Inr ms \<and> length ms = 3)
   \<and> (\<exists>ms. fst (column_means_parallel 2 sched23 sequential data23 world23) = Inr ms
          \<and> length ms = 3)
   \<and> (0::nat) < 10 \<and> valid_schedule sched0 (shape1 data20) \<and> shape1 data20 = 0
   \<and> fst (column_means_serial sequential data20 world23) = Inr []
   \<and> fst (column_means_parallel 10 sched0 sequential data20 world23) = Inr []
   \<and> valid_schedule sched1 (shape1 data21) \<and> shape1 data21 = 1
   \<and> (\<exists>m. fst (column_means_serial sequential data21 world23) = Inr [m]
          \<and> fst (column_means_parallel 2 sched1 sequential data21 world23) = Inr [m])"
proof -
  have s0: "shape1 data20 = 0" and s1: "shape1 data21 = 1"
    by (simp_all add: data20_def data21_def)
  from result_length [of 2 sched23 data23 sequential world23] valid_schedules(1)
  have a: "(\<exists>ms. fst (column_means_serial sequential data23 world23) = Inr ms \<and> length ms = 3)
    \<and> (\<exists>ms. fst (column_means_parallel 2 sched23 sequential data23 world23) = Inr ms
           \<and> length ms = 3)"
    by (simp add: data23_simps)
  from result_length [of 10 sched0 data20 sequential world23] valid_schedules(3) s0
  have b: "fst (column_means_serial sequential data20 world23) = Inr []
    \<and> fst (column_means_parallel 10 sched0 sequential data20 world23) = Inr []"
    by simp
  from result_length [of 2 sched1 data21 sequential world23] valid_schedules(4) s1
  have c: "\<exists>m. fst (column_means_serial sequential data21 world23) = Inr [m]
          \<and> fst (column_means_parallel 2 sched1 sequential data21 world23) = Inr [m]"
    by simp
  from a b c valid_schedules s0 s1 show ?thesis by simp
qed

text \<open>
  C6. The comprehension calls \<open>calc_column_mean\<close> exactly once per column index, in the
  order \<open>0, 1, ..., C-1\<close>, on one thread of control: the calls are the ones the history
  of its own process gains, and call \<open>j\<close> is entered at the clock at which call \<open>j - 1\<close>
  returned, \<open>j\<close> sleeps after the start. The results are kept in that order: the \<open>i\<close>-th
  element of the list is the mean of column \<open>i\<close>, \<open>data[:, i].mean()\<close>.
\<close>

theorem baseline_order:
  "column_means_serial order data w =
     (Inr (map (column_mean order w data) [0..<shape1 data]),
      w\<lparr>now := now w + real (shape1 data) * (1 / 100),
        calls := calls w
          @ map (\<lambda>j. (int j, now w + real j * (1 / 100))) [0..<shape1 data]\<rparr>)
   \<and> map fst (drop (length (calls w)) (calls (snd (column_means_serial order data w))))
       = range_py (shape1 data)"
  by (simp add: serial_result range_py_def comp_def)

theorem baseline_order_witness:
  "fst (column_means_serial sequential data23 world23) = Inr [Num 3, Num 5, Num 8]
   \<and> calls (snd (column_means_serial sequential data23 world23))
       = [(0, 5), (1, 5 + 1 / 100), (2, 5 + 2 / 100)]
   \<and> now (snd (column_means_serial sequential data23 world23)) = 5 + 3 / 100"
  using baseline_order [of sequential data23 world23]
  by (simp add: data23_simps world23_simps column_mean_23 upt_3)

text \<open>
  C7. The computation is deterministic given the matrix: a run repeated in the world the
  first run left returns the same list, for the comprehension, for the pool under any
  two schedules, and for the three cells with their time measurement and prints; and
  two worlds that hold the same memory give the same list, whatever their clocks.
\<close>

theorem rerun_same_results:
  assumes "0 < n_jobs" and "valid_schedule sched (shape1 data)"
    and "valid_schedule sched' (shape1 data)"
  shows "fst (column_means_serial order data (snd (column_means_serial order data w)))
           = fst (column_means_serial order data w)
    \<and> fst (column_means_parallel n_jobs sched' order data
             (snd (column_means_parallel n_jobs sched order data w)))
           = fst (column_means_parallel n_jobs sched order data w)
    \<and> fst (cell_serial order data (snd (cell_serial order data w)))
           = fst (cell_serial order data w)
    \<and> fst (cell_parallel_2 sched' order data (snd (cell_parallel_2 sched order data w)))
           = fst (cell_parallel_2 sched order data w)
    \<and> fst (cell_parallel_10 sched' order data (snd (cell_parallel_10 sched order data w)))
           = fst (cell_parallel_10 sched order data w)
    \<and> (mem w' = mem w \<longrightarrow>
         fst (column_means_serial order data w') = fst (column_means_serial order data w)
         \<and> fst (column_means_parallel n_jobs sched' order data w')
             = fst (column_means_parallel n_jobs sched order data w))"
proof (intro conjI impI)
  note s0 = serial_mem [OF refl, of order data w, symmetric]
  have p0: "Inr (map (column_mean order w data) [0..<shape1 data])
            = fst (column_means_parallel k sched order data w)" if "0 < k" for k
    by (rule parallel_mem [OF refl that assms(2), symmetric])
  show "fst (column_means_serial order data (snd (column_means_serial order data w)))
           = fst (column_means_serial order data w)"
    by (rule trans [OF serial_mem [OF mem_column_means_serial] s0])
  show "fst (column_means_parallel n_jobs sched' order data
             (snd (column_means_parallel n_jobs sched order data w)))
           = fst (column_means_parallel n_jobs sched order data w)"
    by (rule trans [OF parallel_mem [OF mem_column_means_parallel assms(1,3)] p0 [OF assms(1)]])
  show "fst (cell_serial order data (snd (cell_serial order data w)))
           = fst (cell_serial order data w)"
    unfolding fst_cell_serial by (rule trans [OF serial_mem [OF mem_cell_serial] s0])
  show "fst (cell_parallel_2 sched' order data (snd (cell_parallel_2 sched order data w)))
           = fst (cell_parallel_2 sched order data w)"
    unfolding fst_cell_parallel_2
    by (rule trans [OF parallel_mem [OF mem_cell_parallel_2 _ assms(3)] p0]) simp_all
  show "fst (cell_parallel_10 sched' order data (snd (cell_parallel_10 sched order data w)))
           = fst (cell_parallel_10 sched order data w)"
    unfolding fst_cell_parallel_10
    by (rule trans [OF parallel_mem [OF mem_cell_parallel_10 _ assms(3)] p0]) simp_all
next
  assume m: "mem w' = mem w"
  show "fst (column_means_serial order data w') = fst (column_means_serial order data w)"
    by (rule trans [OF serial_mem [OF m] serial_mem [OF refl, symmetric]])
  show "fst (column_means_parallel n_jobs sched' order data w')
             = fst (column_means_parallel n_jobs sched order data w)"
    by (rule trans [OF parallel_mem [OF m assms(1,3)]
          parallel_mem [OF refl assms(1,2), symmetric]])
qed

theorem rerun_same_results_witness:
  "(0::nat) < 2 \<and> valid_schedule sched23 (shape1 data23) \<and> valid_schedule sched23b (shape1 data23)
   \<and> mem (time_sleep 7 world23) = mem world23
   \<and> fst (column_means_serial sequential data23
            (snd (column_means_serial sequential data23 world23)))
       = Inr [Num 3, Num 5, Num 8]
   \<and> fst (column_means_parallel 2 sched23b sequential data23
            (snd (column_means_parallel 2 sched23 sequential data23 world23)))
       = fst (column_means_parallel 2 sched23 sequential data23 world23)
   \<and> fst (column_means_parallel 2 sched23b sequential data23 (time_sleep 7 world23))
       = fst (column_means_parallel 2 sched23 sequential data23 world23)"
  using rerun_same_results [of 2 sched23 data23 sched23b sequential world23 "time_sleep 7 world23"]
    valid_schedules(1,2) serial_23
  by (simp add: mem_time_sleep)

text \<open>
  C8. The matrix is never mutated: \<open>calc_column_mean\<close>, the comprehension, the parallel
  run and the three cells leave the memory as it was, so after the three cells run one
  after the other every entry \<open>data[i, j]\<close> is what it was before the first.
\<close>

theorem matrix_never_mutated:
  "mem (snd (calc_column_mean order data column w)) = mem w
   \<and> mem (snd (column_means_serial order data w)) = mem w
   \<and> mem (snd (column_means_parallel n_jobs sched order data w)) = mem w
   \<and> mem (snd (cell_serial order data w)) = mem w
   \<and> mem (snd (cell_parallel_2 sched order data w)) = mem w
   \<and> mem (snd (cell_parallel_10 sched order data w)) = mem w
   \<and> getitem2 (snd (cell_parallel_10 sched'' order data
        (snd (cell_parallel_2 sched' order data (snd (cell_serial order data w)))))) data i j
     = getitem2 w data i j"
  by (simp add: mem_calc_column_mean mem_column_means_serial mem_column_means_parallel
      mem_cell_serial mem_cell_parallel_2 mem_cell_parallel_10 getitem2_def)

theorem matrix_never_mutated_witness:
  "getitem2 (snd (cell_parallel_10 sched23 sequential data23
        (snd (cell_parallel_2 sched23b sequential data23
           (snd (cell_serial sequential data23 world23)))))) data23 1 2
     = Num 13"
  using matrix_never_mutated [of sequential data23 0 world23 2 sched23 sched23 sched23b 1 2]
  by (simp add: getitem2_def data23_simps world23_simps)

text \<open>
  C9, as the code has it. For every negative column index \<open>c\<close> with
  \<open>-column_count \<le> c < 0\<close>, \<open>calc_column_mean(data, c)\<close> raises no error: it returns what
  the call with the index \<open>column_count + c\<close> returns, the float64 mean of column
  \<open>column_count + c\<close>. With finite entries, a row count of at most \<open>2^53\<close> and a summation
  that adds each entry once, a finite result is the arithmetic mean of that column up
  to rounding, within \<open>((1 + 2^-53)^(k+1) - 1) * (\<Sum>|entries|) / rows + 2^-1075\<close>.
\<close>

theorem negative_index_wraps:
  assumes "- int (shape1 data) \<le> column" and "column < 0"
  shows "fst (calc_column_mean order data column w)
           = Inr (column_mean order w data (nat (int (shape1 data) + column)))
    \<and> fst (calc_column_mean order data column w)
           = fst (calc_column_mean order data (int (shape1 data) + column) w)
    \<and> fst (calc_column_mean order data column w) \<noteq> Inl IndexError
    \<and> fst (calc_column_mean order data column w) \<noteq> Inl OverflowError
    \<and> (0 < shape0 data \<and> shape0 data \<le> 2 ^ 53
        \<and> valid_plan (order (shape0 data)) (shape0 data)
        \<and> (\<forall>i<shape0 data.
              getitem2 w data i (nat (int (shape1 data) + column)) = Num (a i)
              \<and> rnd (a i) = Num (a i))
        \<and> fst (calc_column_mean order data column w) = Inr (Num m) \<longrightarrow>
          \<bar>m - arithmetic_mean a (shape0 data)\<bar>
            \<le> ((1 + 1 / 2 ^ 53) ^ (additions (order (shape0 data)) + 1) - 1)
                * ((\<Sum>i<shape0 data. \<bar>a i\<bar>) / real (shape0 data))
              + power_int 2 (- 1075))"
proof -
  have r: "fst (calc_column_mean order data column w)
           = Inr (column_mean order w data (nat (int (shape1 data) + column)))"
    using assms by (simp add: fst_calc_column_mean_cases add.commute)
  have r': "fst (calc_column_mean order data (int (shape1 data) + column) w)
           = Inr (column_mean order w data (nat (int (shape1 data) + column)))"
    using assms by (intro fst_calc_column_mean_int) simp_all
  have "\<bar>m - arithmetic_mean a (shape0 data)\<bar>
            \<le> ((1 + 1 / 2 ^ 53) ^ (additions (order (shape0 data)) + 1) - 1)
                * ((\<Sum>i<shape0 data. \<bar>a i\<bar>) / real (shape0 data))
              + power_int 2 (- 1075)"
    if h: "0 < shape0 data \<and> shape0 data \<le> 2 ^ 53
        \<and> valid_plan (order (shape0 data)) (shape0 data)
        \<and> (\<forall>i<shape0 data.
              getitem2 w data i (nat (int (shape1 data) + column)) = Num (a i)
              \<and> rnd (a i) = Num (a i))
        \<and> fst (calc_column_mean order data column w) = Inr (Num m)"
    by (rule column_mean_error [where w = w and j = "nat (int (shape1 data) + column)"])
       (use h r in simp_all)
  then show ?thesis
    unfolding r r' by (intro conjI impI) simp_all
qed

theorem negative_index_wraps_witness:
  "- int (shape1 data23) \<le> - 2 \<and> (- 2 :: int) < 0
   \<and> 0 < shape0 data23 \<and> shape0 data23 \<le> 2 ^ 53
   \<and> valid_plan (sequential (shape0 data23)) (shape0 data23)
   \<and> getitem2 world23 data23 0 (nat (int (shape1 data23) + - 2)) = Num 2 \<and> rnd 2 = Num 2
   \<and> getitem2 world23 data23 1 (nat (int (shape1 data23) + - 2)) = Num 8 \<and> rnd 8 = Num 8
   \<and> fst (calc_column_mean sequential data23 (- 2) world23) = Inr (Num 5)
   \<and> fst (calc_column_mean sequential data23 1 world23) = Inr (Num 5)
   \<and> \<bar>5 - arithmetic_mean (\<lambda>i. if i = 0 then 2 else 8) (shape0 data23)\<bar>
       \<le> ((1 + 1 / 2 ^ 53) ^ (additions (sequential (shape0 data23)) + 1) - 1)
           * ((\<Sum>i<shape0 data23. \<bar>if i = 0 then 2 else 8 :: real\<bar>) / real (shape0 data23))
         + power_int 2 (- 1075)"
proof -
  let ?a = "\<lambda>i::nat. if i = 0 then 2 else 8 :: real"
  have r2: "rnd 2 = Num 2" and r8: "rnd 8 = Num 8" by (simp_all add: rnd_numeral)
  have c: "nat (int (shape1 data23) + - 2) = Suc 0" by (simp add: data23_simps)
  have entries: "\<forall>i<shape0 data23.
      getitem2 world23 data23 i (nat (int (shape1 data23) + - 2)) = Num (?a i)
      \<and> rnd (?a i) = Num (?a i)"
    unfolding c by (simp add: data23_simps less_Suc_eq numeral_2_eq_2 getitem2_23 r2 r8)
  note w = negative_index_wraps [of data23 "- 2" sequential world23 ?a 5]
  have pre: "- int (shape1 data23) \<le> - 2" "(- 2 :: int) < 0" by (simp_all add: data23_simps)
  have c1: "int (shape1 data23) + - 2 = 1" by (simp add: data23_simps)
  have res: "fst (calc_column_mean sequential data23 (- 2) world23) = Inr (Num 5)"
    using w [OF pre, THEN conjunct1, unfolded c] by (simp only: column_mean_23)
  have res1: "fst (calc_column_mean sequential data23 1 world23) = Inr (Num 5)"
    using w [OF pre, THEN conjunct2, THEN conjunct1, unfolded c1] res by simp
  have hyp: "0 < shape0 data23 \<and> shape0 data23 \<le> 2 ^ 53
        \<and> valid_plan (sequential (shape0 data23)) (shape0 data23)
        \<and> (\<forall>i<shape0 data23.
              getitem2 world23 data23 i (nat (int (shape1 data23) + - 2)) = Num (?a i)
              \<and> rnd (?a i) = Num (?a i))
        \<and> fst (calc_column_mean sequential data23 (- 2) world23) = Inr (Num 5)"
    using entries res by (simp add: data23_simps valid_plan_sequential_2)
  have "\<bar>5 - arithmetic_mean ?a (shape0 data23)\<bar>
       \<le> ((1 + 1 / 2 ^ 53) ^ (additions (sequential (shape0 data23)) + 1) - 1)
           * ((\<Sum>i<shape0 data23. \<bar>?a i\<bar>) / real (shape0 data23))
         + power_int 2 (- 1075)"
    using w [OF pre] hyp by blast
  with pre hyp res res1 r2 r8 show ?thesis
    unfolding c by (simp add: data23_simps getitem2_23 del: power_numeral)
qed

text \<open>
  C9 as stated fails at the index \<open>-1\<close> of a matrix of two rows and one column that holds
  \<open>2^1023\<close> twice: the arithmetic mean of column \<open>0\<close> is \<open>2^1023\<close> and the call returns \<open>inf\<close>.
\<close>

theorem negative_index_wraps_counterexample:
  "- int (shape1 data_big) \<le> - 1
   \<and> getitem2 world_big data_big 0 (nat (int (shape1 data_big) + - 1)) = Num (2 ^ 1023)
   \<and> getitem2 world_big data_big 1 (nat (int (shape1 data_big) + - 1)) = Num (2 ^ 1023)
   \<and> arithmetic_mean (\<lambda>i. 2 ^ 1023) (shape0 data_big) = 2 ^ 1023
   \<and> fst (calc_column_mean sequential data_big (- 1) world_big) = Inr PInf
   \<and> fst (calc_column_mean sequential data_big (- 1) world_big)
       \<noteq> Inr (Num (arithmetic_mean (\<lambda>i. 2 ^ 1023) (shape0 data_big)))"
proof -
  have "fst (calc_column_mean sequential data_big (- 1) world_big) = Inr PInf"
    by (simp add: fst_calc_column_mean_cases data_big_simps column_mean_big)
  moreover have "arithmetic_mean (\<lambda>i. 2 ^ 1023) (shape0 data_big) = 2 ^ 1023"
    by (simp add: arithmetic_mean_def data_big_simps del: power_numeral)
  ultimately show ?thesis by (simp add: getitem2_big data_big_simps del: power_numeral)
qed

text \<open>
  C10. The value \<open>calc_column_mean(data, column)\<close> returns depends only on the entries
  of that column: for two matrices of the same shape that agree on the column, the
  calls return the same value, whatever the other columns hold.
\<close>

theorem column_noninterference:
  assumes "shape0 d1 = shape0 d2" and "shape1 d1 = shape1 d2"
    and "0 \<le> column" and "column < int (shape1 d1)"
    and "\<forall>i<shape0 d1. getitem2 w1 d1 i (nat column) = getitem2 w2 d2 i (nat column)"
  shows "fst (calc_column_mean order d1 column w1) = fst (calc_column_mean order d2 column w2)"
proof -
  have "column_mean order w1 d1 (nat column) = column_mean order w2 d2 (nat column)"
    by (rule column_mean_cong) (use assms in auto)
  with assms show ?thesis by (simp add: fst_calc_column_mean_int)
qed

theorem column_noninterference_witness:
  "(0::int) \<le> 1 \<and> (1::int) < int (shape1 data23)
   \<and> getitem2 world23 data23 0 (nat 1) = getitem2 world23b data23 0 (nat 1)
   \<and> getitem2 world23 data23 1 (nat 1) = getitem2 world23b data23 1 (nat 1)
   \<and> getitem2 world23 data23 0 0 \<noteq> getitem2 world23b data23 0 0
   \<and> fst (calc_column_mean sequential data23 1 world23)
       = fst (calc_column_mean sequential data23 1 world23b)"
proof -
  have "\<forall>i<shape0 data23. getitem2 world23 data23 i (nat 1) = getitem2 world23b data23 i (nat 1)"
    by (simp add: data23_simps less_Suc_eq numeral_2_eq_2 getitem2_23)
  then have "fst (calc_column_mean sequential data23 1 world23)
      = fst (calc_column_mean sequential data23 1 world23b)"
    by (intro column_noninterference) (simp_all add: data23_simps)
  then show ?thesis
    by (simp add: data23_simps getitem2_23) (simp add: getitem2_def data23_simps world23_simps world23b_simps)
qed

end
